theory Spec2Isabelle
  imports Main "HOL-Library.Word" "HOL-Library.Char_ord" "HOL-Library.List_Lexorder"
begin

section \<open>C strings\<close>

text \<open>
  A C string is modelled by its content, the bytes before the terminating NUL.
  \<open>strcmp\<close> compares byte by byte, each byte read as \<open>unsigned char\<close>; only the sign
  of its result is ever used by the program, so the model returns -1, 0 or 1.
\<close>

fun strcmp :: "string \<Rightarrow> string \<Rightarrow> int" where
  "strcmp [] [] = 0"
| "strcmp [] (y # ys) = - 1"
| "strcmp (x # xs) [] = 1"
| "strcmp (x # xs) (y # ys) =
     (if x = y then strcmp xs ys
      else if (of_char x :: nat) < of_char y then - 1 else 1)"

text \<open>
  A plain \<open>char\<close> is a signed byte on the platform the program was written for
  (x86-64 System V): \<open>char_val\<close> is the value of a \<open>char\<close> after integer promotion.
\<close>

definition char_val :: "char \<Rightarrow> int" where
  "char_val c = sint (of_char c :: 8 word)"

definition NUL :: char where
  "NUL = CHR 0x00"

definition INT_MAX :: int where
  "INT_MAX = 2147483647"

definition INT_MIN :: int where
  "INT_MIN = - 2147483648"

datatype error =
    OutOfBounds       \<comment> \<open>an array is read or written outside its bounds\<close>
  | NullDeref         \<comment> \<open>a NULL pointer (or a field of the NIL sentinel) is dereferenced\<close>
  | SignedOverflow    \<comment> \<open>an \<open>int\<close> computation leaves the range of \<open>int\<close>\<close>

section \<open>Red-black trees of entity handles\<close>

text \<open>
  A node holds a pointer to an entity; the entity's identifier is immutable, and the model
  stores the identifier in the node. The trees are ordered by \<open>strcmp\<close> on identifiers.
  Recolouring and rotations (\<open>left_rotate\<close>, \<open>right_rotate\<close>, \<open>rb_insert_fixup\<close>,
  \<open>rb_delete_fixup\<close>) rearrange a tree without changing its in-order sequence of
  entities or its size; the model keeps the search-tree structure (descent on insertion
  and search, splicing on deletion) and leaves colours and rebalancing out.
  \<open>size_t\<close> is the \<open>short unsigned int size\<close> field: a 16-bit counter.
\<close>

datatype node = NIL | Node node string node

record tree_t =
  root :: node
  size_t :: "16 word"

definition init_tree :: tree_t where
  "init_tree = \<lparr>root = NIL, size_t = 0\<rparr>"

fun tree_search :: "node \<Rightarrow> string \<Rightarrow> node" where
  "tree_search NIL to = NIL"
| "tree_search (Node l x r) to =
     (let compare = strcmp to x in
      if compare = 0 then Node l x r
      else if compare < 0 then tree_search l to
      else tree_search r to)"

fun rb_insert_node :: "node \<Rightarrow> string \<Rightarrow> node" where
  "rb_insert_node NIL z = Node NIL z NIL"
| "rb_insert_node (Node l x r) z =
     (if strcmp z x < 0 then Node (rb_insert_node l z) x r
      else Node l x (rb_insert_node r z))"

definition rb_insert :: "tree_t \<Rightarrow> string \<Rightarrow> tree_t" where
  "rb_insert t to = \<lparr>root = rb_insert_node (root t) to, size_t = size_t t + 1\<rparr>"

fun tree_min :: "node \<Rightarrow> string" where
  "tree_min NIL = []"
| "tree_min (Node l x r) = (if l = NIL then x else tree_min l)"

text \<open>The successor \<open>y\<close> of a node with two children has no left child; it is replaced by its right child.\<close>

fun splice_min :: "node \<Rightarrow> node" where
  "splice_min NIL = NIL"
| "splice_min (Node l x r) = (if l = NIL then r else Node (splice_min l) x r)"

text \<open>
  \<open>rb_delete\<close> receives the node \<open>z\<close> that \<open>tree_search\<close> found; the model reaches it again
  by its key. If \<open>z\<close> has at most one child it is replaced by that child; otherwise its
  successor is spliced out and the successor's entity is copied into \<open>z\<close>.
\<close>

fun rb_delete_node :: "node \<Rightarrow> string \<Rightarrow> node" where
  "rb_delete_node NIL k = NIL"
| "rb_delete_node (Node l x r) k =
     (let compare = strcmp k x in
      if compare = 0 then
        (if l = NIL \<or> r = NIL then (if l \<noteq> NIL then l else r)
         else Node l (tree_min r) (splice_min r))
      else if compare < 0 then Node (rb_delete_node l k) x r
      else Node l x (rb_delete_node r k))"

text \<open>Applied to the NIL sentinel, \<open>rb_delete\<close> follows \<open>NIL->right\<close>, which is NULL.\<close>

fun rb_delete :: "tree_t \<Rightarrow> node \<Rightarrow> error + tree_t" where
  "rb_delete t NIL = Inl NullDeref"
| "rb_delete t (Node l x r) =
     Inr \<lparr>root = rb_delete_node (root t) x, size_t = size_t t - 1\<rparr>"

text \<open>\<open>clear_tree tree tree->root true\<close>, as every caller invokes it.\<close>

definition clear_tree :: "tree_t \<Rightarrow> tree_t" where
  "clear_tree t = (if root t \<noteq> NIL then \<lparr>root = NIL, size_t = 0\<rparr> else t)"

section \<open>Linked lists of relation types\<close>

record list_t =
  key :: string
  tree :: tree_t
  current_maximum :: "16 word"

definition new_list_t :: "string \<Rightarrow> list_t" where
  "new_list_t k = \<lparr>key = k, tree = init_tree, current_maximum = 0\<rparr>"

fun list_search :: "list_t list \<Rightarrow> string \<Rightarrow> list_t option" where
  "list_search [] k = None"
| "list_search (c # cs) k = (if strcmp (key c) k \<noteq> 0 then list_search cs k else Some c)"

definition list_insert_unordered :: "list_t list \<Rightarrow> string \<Rightarrow> list_t \<times> list_t list" where
  "list_insert_unordered l k = (new_list_t k, new_list_t k # l)"

fun list_insert_pos :: "list_t list \<Rightarrow> string \<Rightarrow> list_t list" where
  "list_insert_pos [] k = [new_list_t k]"
| "list_insert_pos (c # cs) k =
     (if strcmp (key c) k < 0 then c # list_insert_pos cs k else new_list_t k # c # cs)"

definition list_insert :: "list_t list \<Rightarrow> string \<Rightarrow> list_t \<times> list_t list" where
  "list_insert l k = (new_list_t k, list_insert_pos l k)"

text \<open>\<open>list_delete\<close> dereferences NULL when the key is not in the list.\<close>

fun list_delete :: "list_t list \<Rightarrow> string \<Rightarrow> error + list_t list" where
  "list_delete [] k = Inl NullDeref"
| "list_delete (c # cs) k =
     (if strcmp (key c) k = 0 then Inr cs
      else (case list_delete cs k of Inl e \<Rightarrow> Inl e | Inr cs' \<Rightarrow> Inr (c # cs')))"

text \<open>
  A write through a \<open>list_t *\<close> obtained from \<open>list_search\<close>: the first node with that key
  is replaced.
\<close>

fun list_store :: "list_t list \<Rightarrow> list_t \<Rightarrow> list_t list" where
  "list_store [] d = []"
| "list_store (c # cs) d =
     (if strcmp (key c) (key d) \<noteq> 0 then c # list_store cs d else d # cs)"

section \<open>The hash table of entities\<close>

definition HASH_DIMENSION :: nat where
  "HASH_DIMENSION = 10000"

record entity_t =
  id_e :: string
  rel_list :: "list_t list"

text \<open>\<open>table i\<close> is the chain of bucket \<open>i\<close>, head first.\<close>

type_synonym HashTable = "nat \<Rightarrow> entity_t list"

definition init_table :: HashTable where
  "init_table = (\<lambda>i. [])"

definition shift_char_value :: "int \<Rightarrow> int" where
  "shift_char_value c =
     (if c = 45 then 1
      else if c = 95 then 2
      else if 65 \<le> c \<and> c \<le> 90 then c - 62
      else if 97 \<le> c \<and> c \<le> 122 then c - 68
      else c)"

text \<open>
  The loop of \<open>hash_string\<close>: \<open>i * i * shift_char_value(to_hash[i])\<close> is computed in
  \<open>int\<close> and added to a \<open>long\<close>. The products overflow \<open>int\<close> from \<open>i = 46341\<close> on, so
  the \<open>long\<close> sum of the at most 46341 terms before that cannot overflow.
\<close>

fun hash_loop :: "string \<Rightarrow> nat \<Rightarrow> int \<Rightarrow> error + int" where
  "hash_loop [] i hash = Inr hash"
| "hash_loop (c # cs) i hash =
     (let sq = int i * int i; p = sq * shift_char_value (char_val c) in
      if INT_MAX < sq \<or> p < INT_MIN \<or> INT_MAX < p then Inl SignedOverflow
      else hash_loop cs (Suc i) (hash + p))"

text \<open>C's \<open>%\<close> truncates towards zero: the remainder has the sign of the dividend.\<close>

definition c_rem :: "int \<Rightarrow> int \<Rightarrow> int" where
  "c_rem a b = sgn a * (\<bar>a\<bar> mod \<bar>b\<bar>)"

definition hash_string :: "string \<Rightarrow> error + int" where
  "hash_string to_hash =
     (case hash_loop to_hash 0 0 of
        Inl e \<Rightarrow> Inl e
      | Inr hash \<Rightarrow> Inr (c_rem hash (int HASH_DIMENSION)))"

text \<open>The index of \<open>ht->table[index]\<close>, checked against the bounds of the table.\<close>

definition table_index :: "string \<Rightarrow> error + nat" where
  "table_index to_hash =
     (case hash_string to_hash of
        Inl e \<Rightarrow> Inl e
      | Inr index \<Rightarrow>
          if index < 0 \<or> int HASH_DIMENSION \<le> index then Inl OutOfBounds
          else Inr (nat index))"

fun chain_search :: "entity_t list \<Rightarrow> string \<Rightarrow> entity_t option" where
  "chain_search [] k = None"
| "chain_search (c # cs) k = (if strcmp (id_e c) k \<noteq> 0 then chain_search cs k else Some c)"

definition hash_search :: "HashTable \<Rightarrow> string \<Rightarrow> error + entity_t option" where
  "hash_search ht to_hash =
     (case table_index to_hash of
        Inl e \<Rightarrow> Inl e
      | Inr index \<Rightarrow> Inr (chain_search (ht index) to_hash))"

definition hash_insert :: "HashTable \<Rightarrow> string \<Rightarrow> error + HashTable" where
  "hash_insert ht to_hash =
     (case table_index to_hash of
        Inl e \<Rightarrow> Inl e
      | Inr index \<Rightarrow> Inr (ht(index := \<lparr>id_e = to_hash, rel_list = []\<rparr> # ht index)))"

fun chain_delete :: "entity_t list \<Rightarrow> string \<Rightarrow> entity_t list" where
  "chain_delete [] k = []"
| "chain_delete (c # cs) k = (if strcmp (id_e c) k = 0 then cs else c # chain_delete cs k)"

definition hash_delete :: "HashTable \<Rightarrow> string \<Rightarrow> error + HashTable" where
  "hash_delete ht to_hash =
     (case table_index to_hash of
        Inl e \<Rightarrow> Inl e
      | Inr index \<Rightarrow> Inr (ht(index := chain_delete (ht index) to_hash)))"

text \<open>
  A write through an \<open>entity_t *\<close> obtained from \<open>hash_search\<close> or from a cursor over a
  chain: the first entity of the chain with that identifier is replaced.
\<close>

fun chain_store :: "entity_t list \<Rightarrow> entity_t \<Rightarrow> entity_t list" where
  "chain_store [] e = []"
| "chain_store (c # cs) e =
     (if strcmp (id_e c) (id_e e) \<noteq> 0 then c # chain_store cs e else e # cs)"

definition entity_store :: "HashTable \<Rightarrow> entity_t \<Rightarrow> HashTable" where
  "entity_store ht e =
     (case table_index (id_e e) of
        Inl x \<Rightarrow> ht
      | Inr index \<Rightarrow> ht(index := chain_store (ht index) e))"

section \<open>The program state\<close>

record state =
  ENTITIES :: HashTable
  RELATION_TYPES :: "list_t list"
  stdout :: string

definition init_state :: state where
  "init_state = \<lparr>ENTITIES = init_table, RELATION_TYPES = [], stdout = []\<rparr>"

section \<open>Commands\<close>

definition addent :: "state \<Rightarrow> string \<Rightarrow> error + state" where
  "addent s ident =
     (case hash_search (ENTITIES s) ident of
        Inl e \<Rightarrow> Inl e
      | Inr (Some found) \<Rightarrow> Inr s
      | Inr None \<Rightarrow>
          (case hash_insert (ENTITIES s) ident of
             Inl e \<Rightarrow> Inl e
           | Inr ht \<Rightarrow> Inr (s\<lparr>ENTITIES := ht\<rparr>)))"

text \<open>
  The update of the report data of a type after \<open>addrel\<close> has looked at the tree of the
  target: \<open>n\<close> is \<open>rel_list->tree->size\<close>.
\<close>

definition addrel_data :: "list_t \<Rightarrow> 16 word \<Rightarrow> string \<Rightarrow> list_t" where
  "addrel_data data_list n to =
     (if n = current_maximum data_list then
        (if tree_search (root (tree data_list)) to = NIL
         then data_list\<lparr>tree := rb_insert (tree data_list) to\<rparr>
         else data_list)
      else if current_maximum data_list < n then
        data_list\<lparr>tree := rb_insert (clear_tree (tree data_list)) to, current_maximum := n\<rparr>
      else data_list)"

definition addrel :: "state \<Rightarrow> string \<Rightarrow> string \<Rightarrow> string \<Rightarrow> error + state" where
  "addrel s from to type =
     (case hash_search (ENTITIES s) from of
        Inl e \<Rightarrow> Inl e
      | Inr from_entity \<Rightarrow>
     (case hash_search (ENTITIES s) to of
        Inl e \<Rightarrow> Inl e
      | Inr to_entity \<Rightarrow>
     (case (from_entity, to_entity) of
        (Some f, Some t) \<Rightarrow>
          (let (data_list, types) =
                 (case list_search (RELATION_TYPES s) type of
                    None \<Rightarrow> list_insert (RELATION_TYPES s) type
                  | Some d \<Rightarrow> (d, RELATION_TYPES s));
               (rel, rels) =
                 (case list_search (rel_list t) type of
                    None \<Rightarrow> list_insert_unordered (rel_list t) type
                  | Some r \<Rightarrow> (r, rel_list t));
               rel_tree =
                 (if tree_search (root (tree rel)) (id_e f) = NIL
                  then rb_insert (tree rel) (id_e f) else tree rel)
           in Inr (s\<lparr>ENTITIES :=
                        entity_store (ENTITIES s)
                          (t\<lparr>rel_list := list_store rels (rel\<lparr>tree := rel_tree\<rparr>)\<rparr>),
                      RELATION_TYPES :=
                        list_store types (addrel_data data_list (size_t rel_tree) (id_e t))\<rparr>))
      | _ \<Rightarrow> Inr s)))"

text \<open>One entity of the scan of \<open>restore_data_maximum\<close>.\<close>

definition restore_entity :: "string \<Rightarrow> entity_t \<Rightarrow> list_t \<Rightarrow> list_t" where
  "restore_entity type ent_cursor data_list =
     (case list_search (rel_list ent_cursor) type of
        None \<Rightarrow> data_list
      | Some rel \<Rightarrow>
          if 0 < size_t (tree rel) \<and> size_t (tree rel) = current_maximum data_list then
            data_list\<lparr>tree := rb_insert (tree data_list) (id_e ent_cursor)\<rparr>
          else if current_maximum data_list < size_t (tree rel) then
            data_list\<lparr>tree := rb_insert (clear_tree (tree data_list)) (id_e ent_cursor),
                       current_maximum := size_t (tree rel)\<rparr>
          else data_list)"

fun restore_chain :: "string \<Rightarrow> entity_t list \<Rightarrow> list_t \<Rightarrow> list_t" where
  "restore_chain type [] data_list = data_list"
| "restore_chain type (e # es) data_list =
     restore_chain type es (restore_entity type e data_list)"

definition restore_scan :: "string \<Rightarrow> HashTable \<Rightarrow> list_t \<Rightarrow> list_t" where
  "restore_scan type ht data_list =
     fold (\<lambda>i d. restore_chain type (ht i) d) [0..<HASH_DIMENSION] data_list"

text \<open>
  \<open>data_list\<close> points to the node of \<open>RELATION_TYPES\<close> whose key is \<open>type\<close>; keys are
  distinct there, because \<open>list_insert\<close> is only called after \<open>list_search\<close> has failed.
\<close>

definition restore_data_maximum :: "state \<Rightarrow> list_t \<Rightarrow> string \<Rightarrow> error + state" where
  "restore_data_maximum s data_list type =
     (let d = restore_scan type (ENTITIES s) (data_list\<lparr>current_maximum := 0\<rparr>) in
      if current_maximum d = 0 then
        (case list_delete (RELATION_TYPES s) type of
           Inl e \<Rightarrow> Inl e
         | Inr l \<Rightarrow> Inr (s\<lparr>RELATION_TYPES := l\<rparr>))
      else Inr (s\<lparr>RELATION_TYPES := list_store (RELATION_TYPES s) d\<rparr>))"

definition rb_delete_key :: "tree_t \<Rightarrow> string \<Rightarrow> tree_t" where
  "rb_delete_key t k = \<lparr>root = rb_delete_node (root t) k, size_t = size_t t - 1\<rparr>"

definition delrel :: "state \<Rightarrow> string \<Rightarrow> string \<Rightarrow> string \<Rightarrow> error + state" where
  "delrel s from to type =
     (case hash_search (ENTITIES s) from of
        Inl e \<Rightarrow> Inl e
      | Inr from_entity \<Rightarrow>
     (case hash_search (ENTITIES s) to of
        Inl e \<Rightarrow> Inl e
      | Inr to_entity \<Rightarrow>
     (case (from_entity, to_entity) of
        (Some f, Some t) \<Rightarrow>
          (case list_search (RELATION_TYPES s) type of
             None \<Rightarrow> Inr s
           | Some data_list \<Rightarrow>
          (case list_search (rel_list t) type of
             None \<Rightarrow> Inr s
           | Some rel \<Rightarrow>
          (case tree_search (root (tree rel)) (id_e f) of
             NIL \<Rightarrow> Inr s
           | Node l x r \<Rightarrow>
               (let rel_tree = rb_delete_key (tree rel) x;
                    s1 = s\<lparr>ENTITIES :=
                            entity_store (ENTITIES s)
                              (t\<lparr>rel_list := list_store (rel_list t) (rel\<lparr>tree := rel_tree\<rparr>)\<rparr>)\<rparr>
                in if unat (size_t rel_tree) + 1 = unat (current_maximum data_list) then
                     (if 1 < size_t (tree data_list) then
                        (case rb_delete (tree data_list)
                                (tree_search (root (tree data_list)) (id_e t)) of
                           Inl e \<Rightarrow> Inl e
                         | Inr dt \<Rightarrow>
                             Inr (s1\<lparr>RELATION_TYPES :=
                                       list_store (RELATION_TYPES s) (data_list\<lparr>tree := dt\<rparr>)\<rparr>))
                      else restore_data_maximum s1 data_list type)
                   else Inr s1))))
      | _ \<Rightarrow> Inr s)))"

text \<open>
  One entity of the scan of \<open>delent\<close> for the type \<open>k\<close>; \<open>dt\<close> is the report tree of the
  type. The pointer comparison \<open>ent_cursor == search\<close> compares identifiers: no two
  entities of the table share one.
\<close>

definition delent_entity :: "string \<Rightarrow> string \<Rightarrow> entity_t \<Rightarrow> tree_t \<Rightarrow> entity_t \<times> tree_t" where
  "delent_entity search k ent_cursor dt =
     (case list_search (rel_list ent_cursor) k of
        None \<Rightarrow> (ent_cursor, dt)
      | Some l \<Rightarrow>
          if id_e ent_cursor = search then
            (ent_cursor\<lparr>rel_list :=
               list_store (rel_list ent_cursor) (l\<lparr>tree := clear_tree (tree l)\<rparr>)\<rparr>,
             (case tree_search (root dt) (id_e ent_cursor) of
                NIL \<Rightarrow> dt
              | Node a x b \<Rightarrow> rb_delete_key dt x))
          else
            (case tree_search (root (tree l)) search of
               NIL \<Rightarrow> (ent_cursor, dt)
             | Node a x b \<Rightarrow>
                 (ent_cursor\<lparr>rel_list :=
                    list_store (rel_list ent_cursor) (l\<lparr>tree := rb_delete_key (tree l) x\<rparr>)\<rparr>,
                  dt)))"

fun delent_chain :: "string \<Rightarrow> string \<Rightarrow> entity_t list \<Rightarrow> tree_t \<Rightarrow> entity_t list \<times> tree_t" where
  "delent_chain search k [] dt = ([], dt)"
| "delent_chain search k (e # es) dt =
     (let (e', dt') = delent_entity search k e dt;
          (es', dt'') = delent_chain search k es dt'
      in (e' # es', dt''))"

definition delent_scan :: "string \<Rightarrow> string \<Rightarrow> HashTable \<Rightarrow> tree_t \<Rightarrow> HashTable \<times> tree_t" where
  "delent_scan search k ht dt =
     fold (\<lambda>i (h, d). let (c, d') = delent_chain search k (h i) d in (h(i := c), d'))
       [0..<HASH_DIMENSION] (ht, dt)"

text \<open>
  The loop of \<open>delent\<close> over the nodes of \<open>RELATION_TYPES\<close>: \<open>next\<close> is saved before the
  node is handled, so the loop visits the nodes the list had when it started.
\<close>

fun delent_types :: "string \<Rightarrow> list_t list \<Rightarrow> state \<Rightarrow> error + state" where
  "delent_types search [] s = Inr s"
| "delent_types search (rel_cursor # rest) s =
     (let (ht, dt) = delent_scan search (key rel_cursor) (ENTITIES s) (tree rel_cursor);
          s1 = s\<lparr>ENTITIES := ht,
                 RELATION_TYPES := list_store (RELATION_TYPES s) (rel_cursor\<lparr>tree := dt\<rparr>)\<rparr>
      in case restore_data_maximum s1 (rel_cursor\<lparr>tree := dt\<rparr>) (key rel_cursor) of
           Inl e \<Rightarrow> Inl e
         | Inr s2 \<Rightarrow> delent_types search rest s2)"

definition delent :: "state \<Rightarrow> string \<Rightarrow> error + state" where
  "delent s ident =
     (case hash_search (ENTITIES s) ident of
        Inl e \<Rightarrow> Inl e
      | Inr None \<Rightarrow> Inr s
      | Inr (Some search) \<Rightarrow>
          (case delent_types (id_e search) (RELATION_TYPES s) s of
             Inl e \<Rightarrow> Inl e
           | Inr s1 \<Rightarrow>
               (case hash_delete (ENTITIES s1) ident of
                  Inl e \<Rightarrow> Inl e
                | Inr ht \<Rightarrow> Inr (s1\<lparr>ENTITIES := ht\<rparr>))))"

section \<open>The report\<close>

definition print_string :: "string \<Rightarrow> string" where
  "print_string str = [CHR 0x22] @ str @ [CHR 0x22, CHR '' '']"

fun print_relation_tree :: "node \<Rightarrow> string" where
  "print_relation_tree NIL = []"
| "print_relation_tree (Node l x r) =
     print_relation_tree l @ print_string x @ print_relation_tree r"

text \<open>\<open>printf("%d", n)\<close> for a non-negative \<open>n\<close>: the decimal digits, most significant first.\<close>

definition digit :: "nat \<Rightarrow> char" where
  "digit n = char_of (48 + n)"

fun decimal :: "nat \<Rightarrow> string" where
  "decimal n = (if n < 10 then [digit n] else decimal (n div 10) @ [digit (n mod 10)])"

declare decimal.simps [simp del]

fun report_loop :: "list_t list \<Rightarrow> string" where
  "report_loop [] = []"
| "report_loop (rel_cursor # rest) =
     print_string (key rel_cursor)
     @ print_relation_tree (root (tree rel_cursor))
     @ decimal (unat (current_maximum rel_cursor)) @ ''; ''
     @ report_loop rest"

text \<open>What \<open>report\<close> writes to the standard output.\<close>

definition report_text :: "state \<Rightarrow> string" where
  "report_text s =
     (if RELATION_TYPES s = [] then ''none'' else report_loop (RELATION_TYPES s)) @ [CHR 0x0A]"

definition report :: "state \<Rightarrow> state" where
  "report s = s\<lparr>stdout := stdout s @ report_text s\<rparr>"

section \<open>Reading the commands\<close>

text \<open>
  A row of the buffer \<open>char arguments[4][100]\<close> is read as a C string: up to its first NUL.
  A row that holds no NUL is read beyond its end.
\<close>

definition c_string :: "char list \<Rightarrow> error + string" where
  "c_string row =
     (if NUL \<in> set row then Inr (takeWhile (\<lambda>c. c \<noteq> NUL) row) else Inl OutOfBounds)"

definition process_arguments ::
  "state \<Rightarrow> char list \<Rightarrow> char list \<Rightarrow> char list \<Rightarrow> char list \<Rightarrow> error + (int \<times> state)" where
  "process_arguments s command arg1 arg2 arg3 =
     (case c_string command of
        Inl e \<Rightarrow> Inl e
      | Inr cmd \<Rightarrow>
          if strcmp cmd ''addent'' = 0 then
            (case c_string arg1 of
               Inl e \<Rightarrow> Inl e
             | Inr a1 \<Rightarrow> (case addent s a1 of Inl e \<Rightarrow> Inl e | Inr s' \<Rightarrow> Inr (0, s')))
          else if strcmp cmd ''delent'' = 0 then
            (case c_string arg1 of
               Inl e \<Rightarrow> Inl e
             | Inr a1 \<Rightarrow> (case delent s a1 of Inl e \<Rightarrow> Inl e | Inr s' \<Rightarrow> Inr (1, s')))
          else if strcmp cmd ''addrel'' = 0 then
            (case c_string arg1 of
               Inl e \<Rightarrow> Inl e
             | Inr a1 \<Rightarrow>
            (case c_string arg2 of
               Inl e \<Rightarrow> Inl e
             | Inr a2 \<Rightarrow>
            (case c_string arg3 of
               Inl e \<Rightarrow> Inl e
             | Inr a3 \<Rightarrow>
                 (case addrel s a1 a2 a3 of Inl e \<Rightarrow> Inl e | Inr s' \<Rightarrow> Inr (2, s')))))
          else if strcmp cmd ''delrel'' = 0 then
            (case c_string arg1 of
               Inl e \<Rightarrow> Inl e
             | Inr a1 \<Rightarrow>
            (case c_string arg2 of
               Inl e \<Rightarrow> Inl e
             | Inr a2 \<Rightarrow>
            (case c_string arg3 of
               Inl e \<Rightarrow> Inl e
             | Inr a3 \<Rightarrow>
                 (case delrel s a1 a2 a3 of Inl e \<Rightarrow> Inl e | Inr s' \<Rightarrow> Inr (3, s')))))
          else if strcmp cmd ''report'' = 0 then Inr (4, report s)
          else if strcmp cmd ''end'' = 0 then Inr (- 1, s)
          else Inr (- 1, s))"

definition EOF :: int where
  "EOF = - 1"

text \<open>
  \<open>arguments[arg_count][char_count] = c\<close>: a write outside the row, or outside the four
  rows, is out of bounds.
\<close>

definition put_char :: "char list list \<Rightarrow> nat \<Rightarrow> nat \<Rightarrow> char \<Rightarrow> error + char list list" where
  "put_char arguments arg_count char_count c =
     (if 4 \<le> arg_count \<or> 100 \<le> char_count then Inl OutOfBounds
      else Inr (arguments[arg_count := (arguments ! arg_count)[char_count := c]]))"

text \<open>
  The loop of \<open>process_input\<close> over the bytes of the input. \<open>getc_unlocked\<close> returns the
  byte as an \<open>int\<close>, the program stores it in a \<open>char\<close> and compares that with \<open>EOF\<close>.
  The end of the byte list is the end of the input.
\<close>

fun process_input :: "char list \<Rightarrow> char list list \<Rightarrow> nat \<Rightarrow> nat \<Rightarrow> state \<Rightarrow> error + state" where
  "process_input [] arguments char_count arg_count s = Inr s"
| "process_input (current_char # input) arguments char_count arg_count s =
     (if char_val current_char = EOF then Inr s
      else if current_char = CHR '' '' \<or> current_char = CHR 0x0A then
        (case put_char arguments arg_count char_count NUL of
           Inl e \<Rightarrow> Inl e
         | Inr arguments' \<Rightarrow>
             if current_char = CHR 0x0A then
               (case process_arguments s (arguments' ! 0) (arguments' ! 1)
                       (arguments' ! 2) (arguments' ! 3) of
                  Inl e \<Rightarrow> Inl e
                | Inr (code, s') \<Rightarrow>
                    if code = - 1 then Inr s'
                    else process_input input arguments' 0 0 s')
             else process_input input arguments' 0 (arg_count + 1) s)
      else if current_char \<noteq> CHR 0x22 then
        (case put_char arguments arg_count char_count current_char of
           Inl e \<Rightarrow> Inl e
         | Inr arguments' \<Rightarrow> process_input input arguments' (char_count + 1) arg_count s)
      else process_input input arguments char_count arg_count s)"

text \<open>
  \<open>main\<close>: the buffer of \<open>process_input\<close> is not initialised, its first content \<open>stack\<close> is
  a parameter (four rows of a hundred bytes). The result is what was written to the
  standard output and the exit code.
\<close>

definition buffer_ok :: "char list list \<Rightarrow> bool" where
  "buffer_ok stack = (length stack = 4 \<and> list_all (\<lambda>row. length row = 100) stack)"

definition main :: "char list list \<Rightarrow> char list \<Rightarrow> error + (string \<times> int)" where
  "main stack input =
     (case process_input input stack 0 0 init_state of
        Inl e \<Rightarrow> Inl e
      | Inr s \<Rightarrow> Inr (stdout s, 0))"

text \<open>A buffer whose bytes are all zero when \<open>process_input\<close> starts.\<close>

definition zero_stack :: "char list list" where
  "zero_stack = replicate 4 (replicate 100 NUL)"

section \<open>Lines of input\<close>

text \<open>
  The shape of a line the parser can take: tokens separated by single spaces. A token has
  no space, no newline and not the byte that the program takes for the end of the input;
  the double quotes in it are dropped; what is left fits a row with its terminator.
\<close>

definition plain_char :: "char \<Rightarrow> bool" where
  "plain_char c = (char_val c \<noteq> EOF \<and> c \<noteq> CHR '' '' \<and> c \<noteq> CHR 0x0A)"

definition unquote :: "string \<Rightarrow> string" where
  "unquote raw = filter (\<lambda>c. c \<noteq> CHR 0x22) raw"

definition token_ok :: "string \<Rightarrow> bool" where
  "token_ok raw = (list_all plain_char raw \<and> length (unquote raw) < 100)"

fun join :: "string list \<Rightarrow> string" where
  "join [] = []"
| "join [t] = t"
| "join (t # u # ts) = t @ CHR '' '' # join (u # ts)"

text \<open>The rows after the tokens of a line have been stored, from row \<open>n\<close> on.\<close>

definition write_row :: "char list \<Rightarrow> nat \<Rightarrow> char list \<Rightarrow> char list" where
  "write_row row n xs = take n row @ xs @ drop (n + length xs) row"

fun fill_rows :: "string list \<Rightarrow> char list list \<Rightarrow> nat \<Rightarrow> char list list" where
  "fill_rows [] arguments n = arguments"
| "fill_rows (t # ts) arguments n =
     fill_rows ts (arguments[n := write_row (arguments ! n) 0 (unquote t @ [NUL])]) (Suc n)"

text \<open>
  A line the parser can take, as the list of its tokens (an empty token between two
  spaces that follow each other, or on an empty line), and an input made of such lines,
  each ended by a newline.
\<close>

definition line_ok :: "string list \<Rightarrow> bool" where
  "line_ok ts = (ts \<noteq> [] \<and> length ts \<le> 4 \<and> list_all token_ok ts)"

fun input_lines :: "string list list \<Rightarrow> string" where
  "input_lines [] = []"
| "input_lines (ts # ls) = join ts @ CHR 0x0A # input_lines ls"

section \<open>Well-formed data\<close>

fun inorder :: "node \<Rightarrow> string list" where
  "inorder NIL = []"
| "inorder (Node l x r) = inorder l @ x # inorder r"

text \<open>The search-tree order, by \<open>strcmp\<close>: the byte-wise order of strings.\<close>

fun bst :: "node \<Rightarrow> bool" where
  "bst NIL = True"
| "bst (Node l x r) =
     (bst l \<and> bst r \<and> (\<forall>y \<in> set (inorder l). y < x) \<and> (\<forall>y \<in> set (inorder r). x < y))"

text \<open>The elements of a tree, in the order in which a traversal visits them.\<close>

definition elems :: "tree_t \<Rightarrow> string list" where
  "elems t = inorder (root t)"

text \<open>
  A well-formed tree is a search tree whose counter is the number of its nodes, as far as
  sixteen bits can tell.
\<close>

definition wf_tree :: "tree_t \<Rightarrow> bool" where
  "wf_tree t = (bst (root t) \<and> size_t t = of_nat (length (elems t)))"

definition wf_list :: "list_t list \<Rightarrow> bool" where
  "wf_list l = (distinct (map key l) \<and> list_all (\<lambda>d. wf_tree (tree d)) l)"

definition wf_entity :: "nat \<Rightarrow> entity_t \<Rightarrow> bool" where
  "wf_entity i e = (table_index (id_e e) = Inr i \<and> wf_list (rel_list e))"

definition wf_table :: "HashTable \<Rightarrow> bool" where
  "wf_table ht =
     (\<forall>i < HASH_DIMENSION. distinct (map id_e (ht i)) \<and> list_all (wf_entity i) (ht i))"

definition wf_state :: "state \<Rightarrow> bool" where
  "wf_state s =
     (wf_table (ENTITIES s)
      \<and> sorted_wrt (<) (map key (RELATION_TYPES s))
      \<and> list_all (\<lambda>d. wf_tree (tree d)) (RELATION_TYPES s))"

section \<open>What a state holds\<close>

text \<open>The entity with a given identifier, if it is live.\<close>

definition lookup :: "HashTable \<Rightarrow> string \<Rightarrow> entity_t option" where
  "lookup ht x = (case hash_search ht x of Inr (Some e) \<Rightarrow> Some e | _ \<Rightarrow> None)"

definition live :: "state \<Rightarrow> string set" where
  "live s = {x. lookup (ENTITIES s) x \<noteq> None}"

text \<open>All the entities of the table, in the order in which a scan of the buckets meets them.\<close>

definition entities :: "HashTable \<Rightarrow> entity_t list" where
  "entities ht = concat (map ht [0..<HASH_DIMENSION])"

text \<open>
  The tree of an entity for a type, and the in-neighbour set it stands for: the sources of
  the relations of that type towards the entity.
\<close>

definition rel_tree :: "entity_t \<Rightarrow> string \<Rightarrow> tree_t" where
  "rel_tree e t = (case list_search (rel_list e) t of None \<Rightarrow> init_tree | Some r \<Rightarrow> tree r)"

definition nbrs :: "state \<Rightarrow> string \<Rightarrow> string \<Rightarrow> string set" where
  "nbrs s x t =
     (case lookup (ENTITIES s) x of None \<Rightarrow> {} | Some e \<Rightarrow> set (elems (rel_tree e t)))"


text \<open>The type descriptor of a type: its current maximum and its leaders.\<close>

definition descriptor :: "state \<Rightarrow> string \<Rightarrow> (16 word \<times> string set) option" where
  "descriptor s t =
     map_option (\<lambda>d. (current_maximum d, set (elems (tree d))))
       (list_search (RELATION_TYPES s) t)"

section \<open>The commands on descriptors, in terms of sets\<close>

text \<open>
  What \<open>addrel\<close> does to the descriptor of a type when the target \<open>to\<close> has in-degree
  counter \<open>n\<close> after the insertion; a type without descriptor gets one with maximum 0
  and no leader first.
\<close>

definition addrel_desc ::
  "(16 word \<times> string set) option \<Rightarrow> 16 word \<Rightarrow> string \<Rightarrow> 16 word \<times> string set" where
  "addrel_desc d n to =
     (let (m, L) = (case d of None \<Rightarrow> (0, {}) | Some p \<Rightarrow> p) in
      if n = m then (m, insert to L)
      else if m < n then (n, {to})
      else (m, L))"

text \<open>The counter of the in-neighbour tree of an entity, 0 for a type the entity has no tree for.\<close>

definition rel_size :: "entity_t \<Rightarrow> string \<Rightarrow> 16 word" where
  "rel_size e t = size_t (rel_tree e t)"

text \<open>
  The global recompute for a type, over the entities \<open>es\<close>: the greatest counter, and the
  entities that have it.
\<close>

definition max_size :: "entity_t list \<Rightarrow> string \<Rightarrow> 16 word" where
  "max_size es t = fold max (map (\<lambda>e. rel_size e t) es) 0"

definition top_entities :: "entity_t list \<Rightarrow> string \<Rightarrow> string set" where
  "top_entities es t = set (map id_e (filter (\<lambda>e. rel_size e t = max_size es t) es))"

text \<open>What the scan of \<open>delent\<close> for the type \<open>k\<close> does to one entity.\<close>

definition delent_rel :: "string \<Rightarrow> string \<Rightarrow> entity_t \<Rightarrow> entity_t" where
  "delent_rel search k e = fst (delent_entity search k e init_tree)"

section \<open>The view of a state: entities, relations and descriptors as sets\<close>

record view =
  v_live :: "string set"
  v_nbrs :: "string \<Rightarrow> string \<Rightarrow> string set"
  v_desc :: "string \<Rightarrow> (16 word \<times> string set) option"

definition view :: "state \<Rightarrow> view" where
  "view s = \<lparr>v_live = live s, v_nbrs = nbrs s, v_desc = descriptor s\<rparr>"

text \<open>The sixteen-bit counter of a set: its cardinality modulo 65536.\<close>

definition count16 :: "string set \<Rightarrow> 16 word" where
  "count16 A = of_nat (card A)"

definition msize :: "view \<Rightarrow> string \<Rightarrow> 16 word" where
  "msize v t = Max (insert 0 ((\<lambda>y. count16 (v_nbrs v y t)) ` v_live v))"

definition tops :: "view \<Rightarrow> string \<Rightarrow> string set" where
  "tops v t = {y \<in> v_live v. count16 (v_nbrs v y t) = msize v t}"

text \<open>The commands on views.\<close>

definition a_recompute :: "string \<Rightarrow> view \<Rightarrow> view" where
  "a_recompute t v =
     v\<lparr>v_desc := (v_desc v)(t := if msize v t = 0 then None else Some (msize v t, tops v t))\<rparr>"

definition a_addent :: "string \<Rightarrow> view \<Rightarrow> view" where
  "a_addent x v = v\<lparr>v_live := insert x (v_live v)\<rparr>"

definition a_addrel :: "string \<Rightarrow> string \<Rightarrow> string \<Rightarrow> view \<Rightarrow> view" where
  "a_addrel from to type v =
     (if from \<in> v_live v \<and> to \<in> v_live v then
        v\<lparr>v_nbrs := (v_nbrs v)(to := (v_nbrs v to)(type := insert from (v_nbrs v to type))),
          v_desc := (v_desc v)(type \<mapsto>
             addrel_desc (v_desc v type) (count16 (insert from (v_nbrs v to type))) to)\<rparr>
      else v)"

text \<open>
  \<open>delrel\<close> on views, where it returns: in the branch that removes the target from the
  leaders the program fails when the target is not among them.
\<close>

definition a_delrel :: "string \<Rightarrow> string \<Rightarrow> string \<Rightarrow> view \<Rightarrow> view" where
  "a_delrel from to type v =
     (if from \<in> v_live v \<and> to \<in> v_live v \<and> from \<in> v_nbrs v to type then
        (case v_desc v type of
           None \<Rightarrow> v
         | Some (m, L) \<Rightarrow>
             let v1 = v\<lparr>v_nbrs := (v_nbrs v)(to := (v_nbrs v to)(type := v_nbrs v to type - {from}))\<rparr> in
             if unat (count16 (v_nbrs v to type - {from})) + 1 = unat m then
               (if 1 < count16 L then v1\<lparr>v_desc := (v_desc v)(type \<mapsto> (m, L - {to}))\<rparr>
                else a_recompute type v1)
             else v1)
      else v)"

definition a_delent :: "string \<Rightarrow> view \<Rightarrow> view" where
  "a_delent x v =
     (if x \<in> v_live v then
        (let v1 = \<lparr>v_live = v_live v - {x},
                   v_nbrs = (\<lambda>y t. if y = x then {}
                                    else if t \<in> dom (v_desc v) then v_nbrs v y t - {x}
                                    else v_nbrs v y t),
                   v_desc = v_desc v\<rparr>
         in v1\<lparr>v_desc := (\<lambda>t. if t \<in> dom (v_desc v)
                               then (if msize v1 t = 0 then None else Some (msize v1 t, tops v1 t))
                               else None)\<rparr>)
      else v)"

text \<open>One round of the loop of \<open>delent\<close>, for the type \<open>k\<close>, on views.\<close>

definition a_delent_type :: "string \<Rightarrow> string \<Rightarrow> view \<Rightarrow> view" where
  "a_delent_type x k v =
     a_recompute k
       (v\<lparr>v_nbrs := (\<lambda>y t. if t = k then (if y = x then {} else v_nbrs v y t - {x})
                            else v_nbrs v y t)\<rparr>)"

section \<open>Runs of commands\<close>

datatype command =
    Addent string
  | Delent string
  | Addrel string string string
  | Delrel string string string
  | Report

fun exec :: "command \<Rightarrow> state \<Rightarrow> error + state" where
  "exec (Addent x) s = addent s x"
| "exec (Delent x) s = delent s x"
| "exec (Addrel f t ty) s = addrel s f t ty"
| "exec (Delrel f t ty) s = delrel s f t ty"
| "exec Report s = Inr (report s)"

text \<open>A run stops at the first command that fails.\<close>

fun run :: "command list \<Rightarrow> state \<Rightarrow> error + state" where
  "run [] s = Inr s"
| "run (c # cs) s = (case exec c s of Inl e \<Rightarrow> Inl e | Inr s' \<Rightarrow> run cs s')"

fun a_exec :: "command \<Rightarrow> view \<Rightarrow> view" where
  "a_exec (Addent x) v = a_addent x v"
| "a_exec (Delent x) v = a_delent x v"
| "a_exec (Addrel f t ty) v = a_addrel f t ty v"
| "a_exec (Delrel f t ty) v = a_delrel f t ty v"
| "a_exec Report v = v"

fun is_addent :: "command \<Rightarrow> bool" where
  "is_addent (Addent x) = True"
| "is_addent c = False"

text \<open>The number of \<open>addent\<close> commands of a run.\<close>

definition addents :: "command list \<Rightarrow> nat" where
  "addents cs = length (filter is_addent cs)"

section \<open>The invariants of the index\<close>

text \<open>
  On views: relations hold between live entities only; a type without descriptor has no
  relation; the descriptor of a type holds the greatest counter, which is not 0, and the
  entities that have it.
\<close>

definition vinv :: "view \<Rightarrow> bool" where
  "vinv v =
     (finite (v_live v)
      \<and> (\<forall>y t. v_nbrs v y t \<subseteq> v_live v)
      \<and> (\<forall>y t. y \<notin> v_live v \<longrightarrow> v_nbrs v y t = {})
      \<and> (\<forall>t. v_desc v t = None \<longrightarrow> (\<forall>y. v_nbrs v y t = {}))
      \<and> (\<forall>t m L. v_desc v t = Some (m, L) \<longrightarrow> m = msize v t \<and> m \<noteq> 0 \<and> L = tops v t))"

text \<open>Few enough entities for the sixteen-bit counters to be exact.\<close>

definition small :: "view \<Rightarrow> bool" where
  "small v = (card (v_live v) \<le> 65535)"

section \<open>The invariants, on the data of the program\<close>

text \<open>The in-degree of an entity for a type: the number of its in-neighbours.\<close>

definition in_deg :: "entity_t \<Rightarrow> string \<Rightarrow> nat" where
  "in_deg e t = card (set (elems (rel_tree e t)))"

text \<open>The greatest in-degree for a type over the live entities, 0 when there is none.\<close>

definition max_in_degree :: "state \<Rightarrow> string \<Rightarrow> nat" where
  "max_in_degree s t = fold max (map (\<lambda>e. in_deg e t) (entities (ENTITIES s))) 0"

text \<open>
  P1 and P2 for one descriptor: its maximum is the greatest in-degree of its type and is
  at least 1; its leaders are the live entities whose in-degree is that maximum.
\<close>

definition leader_ok :: "state \<Rightarrow> list_t \<Rightarrow> bool" where
  "leader_ok s d =
     (unat (current_maximum d) = max_in_degree s (key d)
      \<and> 1 \<le> unat (current_maximum d)
      \<and> set (elems (tree d)) =
          set (map id_e (filter (\<lambda>e. in_deg e (key d) = unat (current_maximum d))
                           (entities (ENTITIES s)))))"

definition leader_inv :: "state \<Rightarrow> bool" where
  "leader_inv s = list_all (leader_ok s) (RELATION_TYPES s)"

section \<open>Runs from the initial state\<close>

text \<open>An identifier whose hash is an index of the table.\<close>

definition hashable :: "string \<Rightarrow> bool" where
  "hashable x = (case table_index x of Inl e \<Rightarrow> False | Inr i \<Rightarrow> True)"

fun cmd_hashable :: "command \<Rightarrow> bool" where
  "cmd_hashable (Addent x) = hashable x"
| "cmd_hashable (Delent x) = hashable x"
| "cmd_hashable (Addrel f t ty) = (hashable f \<and> hashable t)"
| "cmd_hashable (Delrel f t ty) = (hashable f \<and> hashable t)"
| "cmd_hashable Report = True"

definition succeeds :: "command list \<Rightarrow> bool" where
  "succeeds cs = (case run cs init_state of Inl e \<Rightarrow> False | Inr s \<Rightarrow> True)"

text \<open>The state after a run from the initial state (the initial state itself if the run fails).\<close>

definition final :: "command list \<Rightarrow> state" where
  "final cs = (case run cs init_state of Inl e \<Rightarrow> init_state | Inr s \<Rightarrow> s)"

text \<open>A seven-bit byte: its value as a \<open>char\<close> is not negative.\<close>

definition ascii :: "char \<Rightarrow> bool" where
  "ascii c = ((of_char c :: nat) < 128)"

section \<open>Runs that fill the index\<close>






section \<open>The report, in the words of the specification\<close>

text \<open>
  The output of \<open>report\<close> as the specification words it, from the descriptors of a
  state: \<open>none\<close> when no type has a descriptor; otherwise, for each type in ascending
  order, the tokens are the quoted type name, the quoted leaders in ascending order and
  the maximum in decimal followed by a semicolon; every token is followed by one space,
  and a newline ends the output. The order on strings is the byte-wise one of \<open>strcmp\<close>.
\<close>

definition quoted :: "string \<Rightarrow> string" where
  "quoted x = [CHR 0x22] @ x @ [CHR 0x22]"

definition spec_tokens :: "string \<Rightarrow> 16 word \<times> string set \<Rightarrow> string list" where
  "spec_tokens t d =
     quoted t # map quoted (sorted_list_of_set (snd d)) @ [decimal (unat (fst d)) @ '';'']"

definition spec_report :: "(string \<Rightarrow> (16 word \<times> string set) option) \<Rightarrow> string" where
  "spec_report D =
     (if dom D = {} then ''none''
      else concat (map (\<lambda>tok. tok @ '' '')
             (concat (map (\<lambda>t. spec_tokens t (the (D t))) (sorted_list_of_set (dom D))))))
     @ [CHR 0x0A]"




section \<open>Identifiers the parser and the hash function cannot take\<close>

text \<open>
  Claim C9 (every identifier without space, newline and double quote, of any length, is
  tokenized inside the argument buffers and hashed to a bucket index between 0 and 9999)
  fails on the code. An identifier of a hundred bytes makes \<open>process_input\<close> write the
  terminating NUL at \<open>arguments[1][100]\<close>, outside the row; and the two-byte identifier
  \<open>a\<close>, \<open>0x80\<close> hashes to -128, so that \<open>table_index\<close> is outside the table.
\<close>

theorem C9_identifier_out_of_bounds:
  "main zero_stack
     (''addent '' @ [CHR 0x22] @ replicate 100 (CHR ''a'') @ [CHR 0x22, CHR 0x0A])
     = Inl OutOfBounds
   \<and> hash_string [CHR ''a'', CHR 0x80] = Inr (- 128)
   \<and> table_index [CHR ''a'', CHR 0x80] = Inl OutOfBounds"
  by code_simp

section \<open>The dispatcher\<close>

lemma write_row_step:
  "n < length row \<Longrightarrow> write_row (row[n := c]) (Suc n) xs = write_row row n (c # xs)"
  by (simp add: write_row_def take_Suc_conv_app_nth)

lemma length_write_row: "n + length xs \<le> length row \<Longrightarrow> length (write_row row n xs) = length row"
  by (simp add: write_row_def)

lemma write_row_nil: "write_row row n [] = row"
  by (simp add: write_row_def)

lemma process_input_token:
  "list_all plain_char raw \<Longrightarrow> ac < 4 \<Longrightarrow> ac < length arguments \<Longrightarrow>
   length (arguments ! ac) = 100 \<Longrightarrow> cc + length (unquote raw) \<le> 100 \<Longrightarrow>
   process_input (raw @ rest) arguments cc ac s =
   process_input rest (arguments[ac := write_row (arguments ! ac) cc (unquote raw)])
     (cc + length (unquote raw)) ac s"
proof (induction raw arbitrary: arguments cc)
  case Nil
  then show ?case by (simp add: unquote_def write_row_nil)
next
  case (Cons c raw)
  have pcc: "plain_char c" and rest: "list_all plain_char raw"
    using Cons.prems(1) by simp_all
  have pc: "char_val c \<noteq> EOF" "c \<noteq> CHR '' ''" "c \<noteq> CHR 0x0A"
    using pcc by (simp_all add: plain_char_def)
  show ?case
  proof (cases "c = CHR 0x22")
    case True
    have "process_input ((c # raw) @ rest) arguments cc ac s = process_input (raw @ rest) arguments cc ac s"
      using pc True by simp
    also have "\<dots> = process_input rest (arguments[ac := write_row (arguments ! ac) cc (unquote raw)])
     (cc + length (unquote raw)) ac s"
      using Cons.prems True by (intro Cons.IH rest) (simp_all add: unquote_def)
    finally show ?thesis using True by (simp add: unquote_def)
  next
    case False
    then have uq: "unquote (c # raw) = c # unquote raw" by (simp add: unquote_def)
    have cc: "cc < 100" using Cons.prems(5) uq by simp
    let ?args = "arguments[ac := (arguments ! ac)[cc := c]]"
    have "process_input ((c # raw) @ rest) arguments cc ac s = process_input (raw @ rest) ?args (cc + 1) ac s"
      using pc False cc Cons.prems(2) by (simp add: put_char_def)
    also have "\<dots> = process_input rest (?args[ac := write_row (?args ! ac) (cc + 1) (unquote raw)])
     ((cc + 1) + length (unquote raw)) ac s"
      using Cons.prems uq by (intro Cons.IH rest) simp_all
    also have "?args[ac := write_row (?args ! ac) (cc + 1) (unquote raw)]
        = arguments[ac := write_row (arguments ! ac) cc (unquote (c # raw))]"
      using Cons.prems cc uq by (simp add: write_row_step)
    finally show ?thesis using uq by simp
  qed
qed


lemma write_row_terminate:
  "length xs < length row \<Longrightarrow>
   (write_row row 0 xs)[length xs := c] = write_row row 0 (xs @ [c])"
  by (simp add: write_row_def list_update_append flip: Cons_nth_drop_Suc)

lemma process_input_token_sep:
  assumes "list_all plain_char raw" "ac < 4" "ac < length arguments"
    "length (arguments ! ac) = 100" "length (unquote raw) < 100"
  shows "process_input (raw @ CHR '' '' # rest) arguments 0 ac s =
         process_input rest (arguments[ac := write_row (arguments ! ac) 0 (unquote raw @ [NUL])])
           0 (Suc ac) s"
proof -
  let ?a1 = "arguments[ac := write_row (arguments ! ac) 0 (unquote raw)]"
  have "process_input (raw @ CHR '' '' # rest) arguments 0 ac s =
        process_input (CHR '' '' # rest) ?a1 (0 + length (unquote raw)) ac s"
    using assms by (intro process_input_token) simp_all
  moreover have "char_val (CHR '' '') \<noteq> EOF" by (simp add: char_val_def EOF_def)
  moreover have "?a1[ac := (?a1 ! ac)[length (unquote raw) := NUL]]
      = arguments[ac := write_row (arguments ! ac) 0 (unquote raw @ [NUL])]"
    using assms by (simp add: write_row_terminate)
  ultimately show ?thesis using assms by (simp add: put_char_def)
qed


lemma process_input_token_nl:
  assumes "list_all plain_char raw" "ac < 4" "ac < length arguments"
    "length (arguments ! ac) = 100" "length (unquote raw) < 100"
  shows "process_input (raw @ CHR 0x0A # rest) arguments 0 ac s =
         (let rows = arguments[ac := write_row (arguments ! ac) 0 (unquote raw @ [NUL])] in
          case process_arguments s (rows ! 0) (rows ! 1) (rows ! 2) (rows ! 3) of
            Inl e \<Rightarrow> Inl e
          | Inr (code, s') \<Rightarrow>
              if code = - 1 then Inr s' else process_input rest rows 0 0 s')"
proof -
  let ?a1 = "arguments[ac := write_row (arguments ! ac) 0 (unquote raw)]"
  let ?a2 = "?a1[ac := (?a1 ! ac)[length (unquote raw) := NUL]]"
  have eq: "?a2 = arguments[ac := write_row (arguments ! ac) 0 (unquote raw @ [NUL])]"
    using assms by (simp add: write_row_terminate)
  have nl: "char_val (CHR 0x0A) \<noteq> EOF" by (simp add: char_val_def EOF_def)
  have "process_input (raw @ CHR 0x0A # rest) arguments 0 ac s =
        process_input (CHR 0x0A # rest) ?a1 (0 + length (unquote raw)) ac s"
    using assms by (intro process_input_token) simp_all
  also have "\<dots> = (let rows = ?a2 in
          case process_arguments s (rows ! 0) (rows ! 1) (rows ! 2) (rows ! 3) of
            Inl e \<Rightarrow> Inl e
          | Inr (code, s') \<Rightarrow>
              if code = - 1 then Inr s' else process_input rest rows 0 0 s')"
    using assms(2,5) nl by (simp add: put_char_def Let_def del: nth_list_update_eq list_update_overwrite)
  finally show ?thesis unfolding eq .
qed

lemma fill_rows_below: "m < n \<Longrightarrow> fill_rows ts arguments n ! m = arguments ! m"
  by (induction ts arguments n rule: fill_rows.induct) simp_all

lemma length_fill_rows: "length (fill_rows ts arguments n) = length arguments"
  by (induction ts arguments n rule: fill_rows.induct) simp_all

lemma process_input_line:
  "ts \<noteq> [] \<Longrightarrow> list_all token_ok ts \<Longrightarrow> ac + length ts \<le> 4 \<Longrightarrow> length arguments = 4 \<Longrightarrow>
   list_all (\<lambda>row. length row = 100) arguments \<Longrightarrow>
   process_input (join ts @ CHR 0x0A # rest) arguments 0 ac s =
   (let rows = fill_rows ts arguments ac in
    case process_arguments s (rows ! 0) (rows ! 1) (rows ! 2) (rows ! 3) of
      Inl e \<Rightarrow> Inl e
    | Inr (code, s') \<Rightarrow>
        if code = - 1 then Inr s' else process_input rest rows 0 0 s')"
proof (induction ts arbitrary: arguments ac rule: join.induct)
  case 1
  then show ?case by simp
next
  case (2 t)
  then have "list_all plain_char t" "length (unquote t) < 100" "ac < 4"
    by (simp_all add: token_ok_def)
  moreover have "length (arguments ! ac) = 100"
    using 2 \<open>ac < 4\<close> by (simp add: list_all_length)
  ultimately show ?case
    using 2 by (simp add: process_input_token_nl)
next
  case (3 t u ts)
  have t: "list_all plain_char t" "length (unquote t) < 100" and ac: "ac < 4"
    using 3 by (simp_all add: token_ok_def)
  have row: "length (arguments ! ac) = 100"
    using 3 ac by (simp add: list_all_length)
  let ?a = "arguments[ac := write_row (arguments ! ac) 0 (unquote t @ [NUL])]"
  have rows: "list_all (\<lambda>row. length row = 100) ?a"
    using "3.prems" row t ac
    by (auto simp: list_all_length nth_list_update length_write_row)
  have "process_input (join (t # u # ts) @ CHR 0x0A # rest) arguments 0 ac s =
        process_input (join (u # ts) @ CHR 0x0A # rest) ?a 0 (Suc ac) s"
    using t ac row "3.prems" by (simp add: process_input_token_sep)
  also have "\<dots> = (let rows = fill_rows (u # ts) ?a (Suc ac) in
    case process_arguments s (rows ! 0) (rows ! 1) (rows ! 2) (rows ! 3) of
      Inl e \<Rightarrow> Inl e
    | Inr (code, s') \<Rightarrow>
        if code = - 1 then Inr s' else process_input rest rows 0 0 s')"
    using "3.prems" rows by (intro "3.IH") simp_all
  finally show ?case by simp
qed

lemma takeWhile_stop: "\<not> P y \<Longrightarrow> takeWhile P (xs @ y # ys) = takeWhile P xs"
  by (induction xs) simp_all

lemma c_string_write_row:
  "c_string (write_row row 0 (xs @ [NUL])) = Inr (takeWhile (\<lambda>c. c \<noteq> NUL) xs)"
  by (simp add: c_string_def write_row_def takeWhile_stop)

lemma strcmp_eq_0 [simp]: "strcmp a b = 0 \<longleftrightarrow> a = b"
  by (induction a b rule: strcmp.induct) auto

lemma process_arguments_unknown:
  "c_string command = Inr cmd \<Longrightarrow>
   cmd \<notin> {''addent'', ''delent'', ''addrel'', ''delrel'', ''report''} \<Longrightarrow>
   process_arguments s command arg1 arg2 arg3 = Inr (- 1, s)"
  by (simp add: process_arguments_def)

lemma buffer_ok_fill_rows:
  "list_all token_ok ts \<Longrightarrow> n + length ts \<le> 4 \<Longrightarrow> buffer_ok arguments \<Longrightarrow>
   buffer_ok (fill_rows ts arguments n)"
proof (induction ts arguments n rule: fill_rows.induct)
  case (1 arguments n)
  then show ?case by simp
next
  case (2 t ts arguments n)
  have "buffer_ok (arguments[n := write_row (arguments ! n) 0 (unquote t @ [NUL])])"
    using "2.prems"
    by (auto simp: buffer_ok_def list_all_length nth_list_update length_write_row token_ok_def)
  then show ?case using 2 by simp
qed

lemma process_input_line_ok:
  assumes "line_ok ts" "buffer_ok arguments"
  shows "process_input (join ts @ CHR 0x0A # rest) arguments 0 0 s =
   (let rows = fill_rows ts arguments 0 in
    case process_arguments s (rows ! 0) (rows ! 1) (rows ! 2) (rows ! 3) of
      Inl e \<Rightarrow> Inl e
    | Inr (code, s') \<Rightarrow>
        if code = - 1 then Inr s' else process_input rest rows 0 0 s')"
  using assms by (intro process_input_line) (simp_all add: line_ok_def buffer_ok_def)

lemma process_input_unknown:
  assumes "line_ok ts" "buffer_ok arguments"
    and "takeWhile (\<lambda>c. c \<noteq> NUL) (unquote (hd ts))
           \<notin> {''addent'', ''delent'', ''addrel'', ''delrel'', ''report''}"
  shows "process_input (join ts @ CHR 0x0A # rest) arguments 0 0 s = Inr s"
proof -
  obtain t ts' where ts: "ts = t # ts'" using assms(1) by (cases ts) (auto simp: line_ok_def)
  have row0: "fill_rows ts arguments 0 ! 0 = write_row (arguments ! 0) 0 (unquote t @ [NUL])"
    using assms(2) by (simp add: ts fill_rows_below buffer_ok_def)
  show ?thesis
    unfolding process_input_line_ok[OF assms(1,2)]
    using assms(3) row0
    by (simp add: Let_def ts process_arguments_unknown c_string_write_row)
qed

lemma process_input_lines_cut:
  assumes cut: "\<And>arguments' s'. buffer_ok arguments' \<Longrightarrow> process_input X arguments' 0 0 s' = Inr s'"
  shows "list_all line_ok ls \<Longrightarrow> buffer_ok arguments \<Longrightarrow>
    process_input (input_lines ls @ X) arguments 0 0 s = process_input (input_lines ls) arguments 0 0 s"
proof (induction ls arbitrary: arguments s)
  case Nil
  then show ?case by (simp add: cut)
next
  case (Cons ts ls)
  have ok: "line_ok ts" "list_all line_ok ls" using Cons.prems by simp_all
  have b: "buffer_ok (fill_rows ts arguments 0)"
    using ok(1) Cons.prems(2) by (intro buffer_ok_fill_rows) (simp_all add: line_ok_def)
  have IH: "process_input (input_lines ls @ X) (fill_rows ts arguments 0) 0 0 s'
      = process_input (input_lines ls) (fill_rows ts arguments 0) 0 0 s'" for s'
    by (rule Cons.IH[OF ok(2) b])
  show ?case
    by (simp add: process_input_line_ok[OF ok(1) Cons.prems(2)] Let_def IH
        split: sum.splits prod.splits)
qed

text \<open>
  Claim C8, as amended. The input is a sequence of lines \<open>ls\<close> (each of one to four
  tokens separated by single spaces, a token holding fewer than 100 bytes once its double
  quotes are dropped, and not the byte 0xFF), then a line \<open>ts\<close> of the same shape, then
  any bytes \<open>rest\<close>. The first token of \<open>ts\<close> is read the way the dispatcher compares
  it, as a C string: its bytes without the double quotes, up to its first NUL. When that
  string is none of \<open>addent\<close>, \<open>delent\<close>, \<open>addrel\<close>, \<open>delrel\<close>, \<open>report\<close> (so also
  when it is \<open>end\<close>), the line ends the processing of the input: from any state and any
  content of the buffer, \<open>process_input\<close> returns what it returns on the lines \<open>ls\<close>
  alone, so the state that \<open>ls\<close> has built is left as it is and nothing of \<open>rest\<close> is
  executed; \<open>main\<close> writes what it writes on \<open>ls\<close> alone and returns 0. At the end
  of the input \<open>main\<close> returns 0 as well.
\<close>

theorem C8_unknown_command_ends_input:
  assumes "buffer_ok arguments" "list_all line_ok ls" "line_ok ts"
    and "takeWhile (\<lambda>c. c \<noteq> NUL) (unquote (hd ts))
           \<notin> {''addent'', ''delent'', ''addrel'', ''delrel'', ''report''}"
  shows "process_input (input_lines ls @ join ts @ CHR 0x0A # rest) arguments 0 0 s
           = process_input (input_lines ls) arguments 0 0 s
         \<and> main arguments (input_lines ls @ join ts @ CHR 0x0A # rest)
           = main arguments (input_lines ls)
         \<and> (main arguments (input_lines ls) = Inr (out, code) \<longrightarrow>
              code = 0
              \<and> main arguments (input_lines ls @ join ts @ CHR 0x0A # rest) = Inr (out, 0))"
proof -
  have cut: "process_input (join ts @ CHR 0x0A # rest) arguments' 0 0 s' = Inr s'"
    if "buffer_ok arguments'" for arguments' s'
    using assms(3) that assms(4) by (rule process_input_unknown)
  have eq: "process_input (input_lines ls @ join ts @ CHR 0x0A # rest) arguments 0 0 s'
           = process_input (input_lines ls) arguments 0 0 s'" for s'
    using cut assms(2,1) by (rule process_input_lines_cut)
  show ?thesis by (auto simp: eq main_def split: sum.splits)
qed

text \<open>
  The amended claim C8 at the input \<open>report\<close>, \<open>foo bar\<close>, \<open>report\<close>: the first line
  is executed, the second ends the input, the third is not executed.
\<close>

theorem C8_unknown_command_witness:
  "main zero_stack (''report'' @ [CHR 0x0A] @ ''foo bar'' @ [CHR 0x0A] @ ''report'' @ [CHR 0x0A])
     = Inr (''none'' @ [CHR 0x0A], 0)
   \<and> main zero_stack (''report'' @ [CHR 0x0A]) = Inr (''none'' @ [CHR 0x0A], 0)"
proof -
  have b: "buffer_ok zero_stack" by (simp add: buffer_ok_def zero_stack_def list_all_iff)
  have t: "token_ok ''report''" "token_ok ''foo''" "token_ok ''bar''"
    by (simp_all add: token_ok_def plain_char_def unquote_def char_val_def EOF_def)
  have l: "list_all line_ok [[''report'']]" "line_ok [''foo'', ''bar'']"
    using t by (simp_all add: line_ok_def)
  have u: "takeWhile (\<lambda>c. c \<noteq> NUL) (unquote (hd [''foo'', ''bar'']))
           \<notin> {''addent'', ''delent'', ''addrel'', ''delrel'', ''report''}"
    by (simp add: unquote_def NUL_def)
  have r: "main zero_stack (input_lines [[''report'']]) = Inr (''none'' @ [CHR 0x0A], 0)"
    by code_simp
  show ?thesis
    using C8_unknown_command_ends_input[OF b l u, where rest = "''report'' @ [CHR 0x0A]" and out = "''none'' @ [CHR 0x0A]"
        and code = 0 and s = init_state] r
    by simp
qed

text \<open>
  Claim C8 as stated (an unrecognised line is ignored and the following lines are
  processed) fails: after the line \<open>foo\<close> the \<open>report\<close> line writes nothing, where alone it
  writes \<open>none\<close>.
\<close>

theorem C8_unknown_line_not_ignored:
  "main zero_stack (''foo'' @ [CHR 0x0A] @ ''report'' @ [CHR 0x0A]) = Inr ([], 0)
   \<and> main zero_stack (''report'' @ [CHR 0x0A]) = Inr (''none'' @ [CHR 0x0A], 0)"
  by code_simp

lemma strcmp_conv: "strcmp a b = (if a = b then 0 else if a < b then - 1 else 1)"
  by (induction a b rule: strcmp.induct) (auto simp: less_char_def)

lemma strcmp_lt [simp]: "strcmp a b < 0 \<longleftrightarrow> a < b"
  by (simp add: strcmp_conv)

lemma strcmp_neq [simp]: "strcmp a b \<noteq> 0 \<longleftrightarrow> a \<noteq> b"
  by (simp add: strcmp_conv)

lemma bst_sorted: "bst t \<Longrightarrow> sorted_wrt (<) (inorder t)"
  by (induction t) (auto simp: sorted_wrt_append intro: less_trans)

lemma tree_search_NIL: "bst t \<Longrightarrow> tree_search t k = NIL \<longleftrightarrow> k \<notin> set (inorder t)"
  by (induction t) (auto simp: Let_def)

lemma tree_search_Node: "tree_search t k = Node l x r \<Longrightarrow> x = k"
  by (induction t) (auto simp: Let_def split: if_splits)

lemma set_rb_insert_node [simp]: "set (inorder (rb_insert_node t k)) = insert k (set (inorder t))"
  by (induction t) auto

lemma length_rb_insert_node [simp]: "length (inorder (rb_insert_node t k)) = Suc (length (inorder t))"
  by (induction t) auto

lemma bst_rb_insert_node: "bst t \<Longrightarrow> k \<notin> set (inorder t) \<Longrightarrow> bst (rb_insert_node t k)"
  by (induction t) auto

lemma tree_min_in: "t \<noteq> NIL \<Longrightarrow> tree_min t \<in> set (inorder t)"
  by (induction t) auto

lemma inorder_splice_min: "t \<noteq> NIL \<Longrightarrow> inorder t = tree_min t # inorder (splice_min t)"
  by (induction t) auto

lemma inorder_NIL [simp]: "inorder t = [] \<longleftrightarrow> t = NIL"
  by (cases t) auto

lemma bst_distinct: "bst t \<Longrightarrow> distinct (inorder t)"
  using bst_sorted strict_sorted_iff by blast

lemma inorder_rb_delete_node: "bst t \<Longrightarrow> inorder (rb_delete_node t k) = removeAll k (inorder t)"
proof (induction t)
  case NIL
  then show ?case by simp
next
  case (Node l x r)
  have nl: "k < x \<Longrightarrow> k \<notin> set (inorder r)" and nr: "x < k \<Longrightarrow> k \<notin> set (inorder l)"
    and xl: "x \<notin> set (inorder l)" and xr: "x \<notin> set (inorder r)"
    using Node.prems by auto
  show ?case
  proof (cases "k = x")
    case True
    then show ?thesis
      using Node.prems xl xr inorder_splice_min[of r]
      by (auto simp: Let_def)
  next
    case False
    then show ?thesis
      using Node nl nr by (cases "k < x") (auto simp: Let_def)
  qed
qed

lemma set_splice_min_subset: "set (inorder (splice_min t)) \<subseteq> set (inorder t)"
  by (induction t) auto

lemma bst_splice_min: "bst t \<Longrightarrow> bst (splice_min t)"
  using set_splice_min_subset by (induction t) auto

lemma bst_rb_delete_node: "bst t \<Longrightarrow> bst (rb_delete_node t k)"
proof (induction t)
  case NIL
  then show ?case by simp
next
  case (Node l x r)
  show ?case
  proof (cases "k = x")
    case True
    show ?thesis
    proof (cases "l = NIL \<or> r = NIL")
      case True
      then show ?thesis using Node.prems \<open>k = x\<close> by (auto simp: Let_def)
    next
      case False
      then have r: "r \<noteq> NIL" by simp
      have io: "inorder r = tree_min r # inorder (splice_min r)"
        using r by (rule inorder_splice_min)
      have "bst (splice_min r)" using Node.prems by (simp add: bst_splice_min)
      moreover have "\<forall>y \<in> set (inorder (splice_min r)). tree_min r < y"
        using bst_sorted[of r] Node.prems io by (metis bst.simps(2) sorted_wrt.simps(2))
      moreover have "\<forall>y \<in> set (inorder l). y < tree_min r"
        using Node.prems tree_min_in[OF r] by (auto intro: less_trans)
      ultimately show ?thesis using Node.prems False \<open>k = x\<close> by (auto simp: Let_def)
    qed
  next
    case False
    then show ?thesis
      using Node by (cases "k < x") (auto simp: Let_def inorder_rb_delete_node)
  qed
qed


lemma list_search_Some: "list_search l k = Some d \<Longrightarrow> key d = k \<and> d \<in> set l"
  by (induction l) (auto split: if_splits)

lemma list_search_None: "list_search l k = None \<longleftrightarrow> k \<notin> key ` set l"
  by (induction l) auto

lemma list_search_in: "distinct (map key l) \<Longrightarrow> d \<in> set l \<Longrightarrow> list_search l (key d) = Some d"
  by (induction l) auto

lemma map_key_list_store [simp]: "map key (list_store l d) = map key l"
  by (induction l) auto

lemma list_search_list_store:
  "list_search (list_store l d) k =
     (if k = key d \<and> key d \<in> key ` set l then Some d else list_search l k)"
  by (induction l) auto

lemma list_all_list_store:
  "list_all P l \<Longrightarrow> P d \<Longrightarrow> list_all P (list_store l d)"
  by (induction l) auto

lemma wf_list_store: "wf_list l \<Longrightarrow> wf_tree (tree d) \<Longrightarrow> wf_list (list_store l d)"
  by (simp add: wf_list_def list_all_list_store)

lemma set_list_insert_pos [simp]: "set (list_insert_pos l k) = insert (new_list_t k) (set l)"
  by (induction l) auto

lemma key_new_list_t [simp]: "key (new_list_t k) = k"
  by (simp add: new_list_t_def)

lemma sorted_list_insert_pos:
  "sorted_wrt (<) (map key l) \<Longrightarrow> k \<notin> key ` set l \<Longrightarrow> sorted_wrt (<) (map key (list_insert_pos l k))"
  by (induction l) (auto simp: not_less order_le_less)

lemma list_search_list_insert_pos:
  "k \<notin> key ` set l \<Longrightarrow>
   list_search (list_insert_pos l k) k' = (if k' = k then Some (new_list_t k) else list_search l k')"
  by (induction l) auto

lemma list_delete_Inr:
  "k \<in> key ` set l \<Longrightarrow> \<exists>l'. list_delete l k = Inr l'"
  by (induction l) (auto split: sum.splits)

lemma list_delete_props:
  "list_delete l k = Inr l' \<Longrightarrow> distinct (map key l) \<Longrightarrow>
   set l' = {d \<in> set l. key d \<noteq> k} \<and> list_search l' k' = (if k' = k then None else list_search l k')"
proof (induction l arbitrary: l')
  case Nil
  then show ?case by simp
next
  case (Cons c cs)
  show ?case
  proof (cases "key c = k")
    case True
    then have "l' = cs" using Cons.prems by simp
    moreover have "k \<notin> key ` set cs" using Cons.prems True by auto
    ultimately have "set l' = {d \<in> set (c # cs). key d \<noteq> k}"
      and "list_search l' k = None"
      using True by (auto simp: list_search_None image_iff)
    then show ?thesis using True \<open>l' = cs\<close> by auto
  next
    case False
    then obtain cs' where cs': "list_delete cs k = Inr cs'" "l' = c # cs'"
      using Cons.prems by (auto split: sum.splits)
    then show ?thesis using Cons.IH[OF cs'(1)] Cons.prems False by auto
  qed
qed

lemma sorted_list_delete:
  "list_delete l k = Inr l' \<Longrightarrow> sorted_wrt (<) (map key l) \<Longrightarrow> sorted_wrt (<) (map key l')"
proof (induction l arbitrary: l')
  case Nil
  then show ?case by simp
next
  case (Cons c cs)
  show ?case
  proof (cases "key c = k")
    case True
    then show ?thesis using Cons.prems by simp
  next
    case False
    then obtain cs' where cs': "list_delete cs k = Inr cs'" "l' = c # cs'"
      using Cons.prems by (auto split: sum.splits)
    have "set cs' \<subseteq> set cs"
      using list_delete_props[OF cs'(1)] Cons.prems strict_sorted_iff[of "map key (c # cs)"] 
      by auto
    then show ?thesis using Cons.IH[OF cs'(1)] Cons.prems cs'(2) by auto
  qed
qed

lemma chain_search_Some: "chain_search c k = Some e \<Longrightarrow> id_e e = k \<and> e \<in> set c"
  by (induction c) (auto split: if_splits)

lemma chain_search_None: "chain_search c k = None \<longleftrightarrow> k \<notin> id_e ` set c"
  by (induction c) auto

lemma chain_search_in: "distinct (map id_e c) \<Longrightarrow> e \<in> set c \<Longrightarrow> chain_search c (id_e e) = Some e"
  by (induction c) auto

lemma map_id_chain_store [simp]: "map id_e (chain_store c e) = map id_e c"
  by (induction c) auto

lemma chain_search_chain_store:
  "chain_search (chain_store c e) k =
     (if k = id_e e \<and> id_e e \<in> id_e ` set c then Some e else chain_search c k)"
  by (induction c) auto

lemma list_all_chain_store: "list_all P c \<Longrightarrow> P e \<Longrightarrow> list_all P (chain_store c e)"
  by (induction c) auto

lemma map_id_chain_delete: "map id_e (chain_delete c k) = remove1 k (map id_e c)"
  by (induction c) auto

lemma chain_search_chain_delete:
  "distinct (map id_e c) \<Longrightarrow>
   chain_search (chain_delete c k) k' = (if k' = k then None else chain_search c k')"
  by (induction c) (auto simp: chain_search_None image_iff)

lemma set_chain_delete: "set (chain_delete c k) \<subseteq> set c"
  by (induction c) auto

lemma table_index_bound: "table_index x = Inr i \<Longrightarrow> i < HASH_DIMENSION"
  by (auto simp: table_index_def split: sum.splits if_splits)

lemma lookup_Some:
  "lookup ht x = Some e \<longleftrightarrow> (\<exists>i. table_index x = Inr i \<and> chain_search (ht i) x = Some e)"
  by (auto simp: lookup_def hash_search_def split: sum.splits option.splits)

lemma lookup_SomeD:
  "lookup ht x = Some e \<Longrightarrow> id_e e = x \<and> (\<exists>i < HASH_DIMENSION. table_index x = Inr i \<and> e \<in> set (ht i))"
  by (auto simp: lookup_Some dest: chain_search_Some table_index_bound)

lemma hash_search_lookup:
  "hash_search ht x = Inr r \<Longrightarrow> lookup ht x = r"
  by (auto simp: lookup_def split: option.splits)

lemma wf_tableD:
  "wf_table ht \<Longrightarrow> i < HASH_DIMENSION \<Longrightarrow> e \<in> set (ht i) \<Longrightarrow>
   table_index (id_e e) = Inr i \<and> wf_list (rel_list e) \<and> distinct (map id_e (ht i))"
  by (auto simp: wf_table_def wf_entity_def list_all_iff)

lemma lookup_in:
  "wf_table ht \<Longrightarrow> i < HASH_DIMENSION \<Longrightarrow> e \<in> set (ht i) \<Longrightarrow> lookup ht (id_e e) = Some e"
  by (auto simp: lookup_Some dest!: wf_tableD intro: chain_search_in)

lemma lookup_wf: "wf_table ht \<Longrightarrow> lookup ht x = Some e \<Longrightarrow> wf_list (rel_list e)"
  by (auto dest!: lookup_SomeD dest: wf_tableD)

lemma set_entities: "set (entities ht) = (\<Union>i \<in> {..<HASH_DIMENSION}. set (ht i))"
  by (auto simp: entities_def)

lemma entities_lookup:
  "wf_table ht \<Longrightarrow> e \<in> set (entities ht) \<longleftrightarrow> lookup ht (id_e e) = Some e"
  by (auto simp: set_entities dest: lookup_in lookup_SomeD)

lemma distinct_entities_aux:
  "wf_table ht \<Longrightarrow> n \<le> HASH_DIMENSION \<Longrightarrow> distinct (map id_e (concat (map ht [0..<n])))"
proof (induction n)
  case 0
  then show ?case by simp
next
  case (Suc n)
  have disj: "id_e e \<noteq> id_e e'" if "e \<in> set (ht n)" "i < n" "e' \<in> set (ht i)" for e e' i
  proof
    assume "id_e e = id_e e'"
    then have "table_index (id_e e) = Inr n" "table_index (id_e e) = Inr i"
      using that Suc.prems wf_tableD[of ht n e] wf_tableD[of ht i e'] by auto
    then show False using \<open>i < n\<close> by simp
  qed
  have "distinct (map id_e (ht n))"
    using Suc.prems by (simp add: wf_table_def)
  moreover have "id_e ` (\<Union>i \<in> {0..<n}. set (ht i)) \<inter> id_e ` set (ht n) = {}"
    using disj by fastforce
  ultimately show ?case using Suc by (simp add: image_UN)
qed

lemma distinct_entities: "wf_table ht \<Longrightarrow> distinct (map id_e (entities ht))"
  by (simp add: entities_def distinct_entities_aux)

lemma live_entities: "wf_table (ENTITIES s) \<Longrightarrow> live s = id_e ` set (entities (ENTITIES s))"
proof (intro set_eqI iffI)
  fix x assume wf: "wf_table (ENTITIES s)" and "x \<in> live s"
  then obtain e where e: "lookup (ENTITIES s) x = Some e" by (auto simp: live_def)
  then have "id_e e = x" by (auto dest: lookup_SomeD)
  then show "x \<in> id_e ` set (entities (ENTITIES s))"
    using e wf by (auto simp: entities_lookup image_iff intro!: bexI[of _ e])
next
  fix x assume wf: "wf_table (ENTITIES s)" and "x \<in> id_e ` set (entities (ENTITIES s))"
  then show "x \<in> live s" by (auto simp: live_def entities_lookup)
qed

lemma finite_live: "wf_table (ENTITIES s) \<Longrightarrow> finite (live s)"
  by (simp add: live_entities)

lemma wf_tree_distinct: "wf_tree t \<Longrightarrow> distinct (elems t)"
  by (simp add: wf_tree_def elems_def bst_distinct)

lemma wf_init_tree [simp]: "wf_tree init_tree" "elems init_tree = []"
  by (simp_all add: wf_tree_def init_tree_def elems_def)

lemma tree_search_elems: "wf_tree t \<Longrightarrow> tree_search (root t) k = NIL \<longleftrightarrow> k \<notin> set (elems t)"
  by (simp add: wf_tree_def elems_def tree_search_NIL)

lemma wf_rb_insert:
  "wf_tree t \<Longrightarrow> k \<notin> set (elems t) \<Longrightarrow> wf_tree (rb_insert t k)"
  by (simp add: wf_tree_def elems_def rb_insert_def bst_rb_insert_node)

lemma set_rb_insert [simp]: "set (elems (rb_insert t k)) = insert k (set (elems t))"
  by (simp add: elems_def rb_insert_def)

lemma wf_clear_tree: "wf_tree t \<Longrightarrow> wf_tree (clear_tree t)"
  by (simp add: wf_tree_def elems_def clear_tree_def)

lemma elems_clear_tree [simp]: "elems (clear_tree t) = []"
  by (simp add: elems_def clear_tree_def)

lemma elems_rb_delete_key:
  "wf_tree t \<Longrightarrow> elems (rb_delete_key t k) = removeAll k (elems t)"
  by (simp add: wf_tree_def elems_def rb_delete_key_def inorder_rb_delete_node)

lemma wf_rb_delete_key:
  assumes "wf_tree t" "k \<in> set (elems t)"
  shows "wf_tree (rb_delete_key t k)"
proof -
  have d: "distinct (elems t)" using assms(1) by (rule wf_tree_distinct)
  have "length (removeAll k (elems t)) = length (elems t) - 1"
    using d assms(2) by (simp add: distinct_remove1_removeAll[symmetric] length_remove1)
  moreover have "1 \<le> length (elems t)"
    using assms(2) by (cases "elems t") auto
  ultimately have "(of_nat (length (removeAll k (elems t))) :: 16 word) = of_nat (length (elems t)) - 1"
    by (simp add: of_nat_diff)
  then show ?thesis
    using assms elems_rb_delete_key[OF assms(1), of k]
    by (simp add: wf_tree_def rb_delete_key_def bst_rb_delete_node elems_def)
qed

lemma rb_delete_eq: "rb_delete t (Node l x r) = Inr (rb_delete_key t x)"
  by (simp add: rb_delete_key_def)

lemma key_addrel_data [simp]: "key (addrel_data d n to) = key d"
  by (simp add: addrel_data_def)

lemma wf_addrel_data: "wf_tree (tree d) \<Longrightarrow> wf_tree (tree (addrel_data d n to))"
  by (auto simp: addrel_data_def wf_rb_insert wf_clear_tree tree_search_elems)

lemma addrel_data_desc:
  "wf_tree (tree d) \<Longrightarrow>
   (current_maximum (addrel_data d n to), set (elems (tree (addrel_data d n to))))
     = addrel_desc (Some (current_maximum d, set (elems (tree d)))) n to"
  by (auto simp: addrel_data_def addrel_desc_def tree_search_elems)

lemma addrel_desc_new:
  "addrel_desc (Some (current_maximum (new_list_t k), set (elems (tree (new_list_t k))))) n to
     = addrel_desc None n to"
  by (simp add: addrel_desc_def new_list_t_def)

lemma rel_size_None: "list_search (rel_list e) t = None \<Longrightarrow> rel_size e t = 0"
  by (simp add: rel_size_def rel_tree_def init_tree_def)

lemma rel_size_Some: "list_search (rel_list e) t = Some r \<Longrightarrow> rel_size e t = size_t (tree r)"
  by (simp add: rel_size_def rel_tree_def)

lemma restore_entity_eq:
  "restore_entity type e d =
     (let n = rel_size e type in
      if 0 < n \<and> n = current_maximum d then d\<lparr>tree := rb_insert (tree d) (id_e e)\<rparr>
      else if current_maximum d < n then
        d\<lparr>tree := rb_insert (clear_tree (tree d)) (id_e e), current_maximum := n\<rparr>
      else d)"
  by (auto simp: restore_entity_def rel_size_None rel_size_Some Let_def split: option.splits)

lemma restore_chain_append:
  "restore_chain type (xs @ ys) d = restore_chain type ys (restore_chain type xs d)"
  by (induction xs arbitrary: d) simp_all

lemma max_size_Max: "max_size es t = Max (insert 0 ((\<lambda>e. rel_size e t) ` set es))"
  using Max.set_eq_fold[of 0 "map (\<lambda>e. rel_size e t) es"] by (simp add: max_size_def)

lemma max_size_snoc: "max_size (es @ [e]) t = max (max_size es t) (rel_size e t)"
  by (simp add: max_size_def max.commute)

lemma max_size_ge: "e \<in> set es \<Longrightarrow> rel_size e t \<le> max_size es t"
  by (simp add: max_size_Max)

lemma top_entities_subset: "top_entities es t \<subseteq> id_e ` set es"
  by (auto simp: top_entities_def)

lemma max_snoc_le: "rel_size e t \<le> max_size es t \<Longrightarrow> max_size (es @ [e]) t = max_size es t"
  by (simp add: max_size_snoc max.absorb1)

lemma max_snoc_gt: "max_size es t < rel_size e t \<Longrightarrow> max_size (es @ [e]) t = rel_size e t"
  by (simp add: max_size_snoc max.absorb2 less_imp_le)

lemma top_snoc_eq:
  "rel_size e t = max_size es t \<Longrightarrow>
   top_entities (es @ [e]) t = insert (id_e e) (top_entities es t)"
  by (simp add: top_entities_def max_snoc_le)

lemma top_snoc_gt:
  assumes "max_size es t < rel_size e t"
  shows "top_entities (es @ [e]) t = {id_e e}"
proof -
  have "rel_size e' t \<noteq> rel_size e t" if "e' \<in> set es" for e'
    using assms max_size_ge[OF that, of t] by (metis leD)
  then have "filter (\<lambda>e'. rel_size e' t = rel_size e t) es = []"
    by (simp add: filter_empty_conv)
  then show ?thesis using assms by (simp add: top_entities_def max_snoc_gt)
qed

lemma top_snoc_lt:
  "rel_size e t < max_size es t \<Longrightarrow> top_entities (es @ [e]) t = top_entities es t"
  by (simp add: top_entities_def max_snoc_le less_imp_le)

lemma restore_entity_step:
  assumes cm: "current_maximum d = max_size es type"
    and wf: "wf_tree (tree d)"
    and top: "0 < max_size es type \<Longrightarrow> set (elems (tree d)) = top_entities es type"
    and fresh: "id_e e \<notin> id_e ` set es"
  shows "current_maximum (restore_entity type e d) = max_size (es @ [e]) type
       \<and> key (restore_entity type e d) = key d
       \<and> wf_tree (tree (restore_entity type e d))
       \<and> (0 < max_size (es @ [e]) type \<longrightarrow>
            set (elems (tree (restore_entity type e d))) = top_entities (es @ [e]) type)"
proof -
  let ?n = "rel_size e type"
  consider (eq) "0 < ?n" "?n = max_size es type"
    | (gt) "max_size es type < ?n"
    | (lt) "?n < max_size es type"
    | (zero) "?n = 0" "max_size es type = 0"
    by (metis linorder_neqE word_gt_0)
  then show ?thesis
  proof cases
    case eq
    have r: "restore_entity type e d = d\<lparr>tree := rb_insert (tree d) (id_e e)\<rparr>"
      using eq cm by (simp add: restore_entity_eq Let_def)
    have "id_e e \<notin> set (elems (tree d))"
      using top eq fresh top_entities_subset[of es type] by auto
    then show ?thesis
      unfolding r using eq cm wf top by (simp add: max_snoc_le top_snoc_eq wf_rb_insert)
  next
    case gt
    have r: "restore_entity type e d =
        d\<lparr>tree := rb_insert (clear_tree (tree d)) (id_e e), current_maximum := ?n\<rparr>"
    proof -
      have "?n \<noteq> max_size es type" using gt by (metis less_irrefl)
      then show ?thesis using gt cm by (simp add: restore_entity_eq Let_def)
    qed
    show ?thesis
      unfolding r using gt wf by (simp add: max_snoc_gt top_snoc_gt wf_rb_insert wf_clear_tree)
  next
    case lt
    have r: "restore_entity type e d = d"
    proof -
      have "?n \<noteq> max_size es type" "\<not> max_size es type < ?n"
        using lt by (metis less_irrefl, metis less_asym)
      then show ?thesis using cm by (simp add: restore_entity_eq Let_def)
    qed
    show ?thesis
      unfolding r using lt cm wf top by (simp add: max_snoc_le top_snoc_lt less_imp_le)
  next
    case zero
    have r: "restore_entity type e d = d"
      using zero cm by (simp add: restore_entity_eq Let_def)
    show ?thesis
      unfolding r using zero cm wf by (simp add: max_snoc_le)
  qed
qed

lemma restore_chain_inv:
  assumes "distinct (map id_e es)" "current_maximum d0 = 0" "wf_tree (tree d0)"
  shows "current_maximum (restore_chain type es d0) = max_size es type
       \<and> key (restore_chain type es d0) = key d0
       \<and> wf_tree (tree (restore_chain type es d0))
       \<and> (0 < max_size es type \<longrightarrow>
            set (elems (tree (restore_chain type es d0))) = top_entities es type)"
  using assms(1)
proof (induction es rule: rev_induct)
  case Nil
  then show ?case using assms by (simp add: max_size_def)
next
  case (snoc e es)
  let ?d = "restore_chain type es d0"
  have IH: "current_maximum ?d = max_size es type" "key ?d = key d0" "wf_tree (tree ?d)"
    "0 < max_size es type \<Longrightarrow> set (elems (tree ?d)) = top_entities es type"
    using snoc by simp_all
  have fresh: "id_e e \<notin> id_e ` set es" using snoc.prems by auto
  have step: "restore_chain type (es @ [e]) d0 = restore_entity type e ?d"
    by (simp add: restore_chain_append)
  show ?case
    unfolding step using restore_entity_step[OF IH(1) IH(3) IH(4) fresh] IH(2) by simp
qed

lemma restore_scan_entities:
  "restore_scan type ht d = restore_chain type (entities ht) d"
proof -
  have "fold (\<lambda>i d. restore_chain type (ht i) d) is d = restore_chain type (concat (map ht is)) d"
    for "is"
    by (induction "is" arbitrary: d) (simp_all add: restore_chain_append)
  then show ?thesis by (simp add: restore_scan_def entities_def)
qed

lemma lookup_fun_upd:
  "table_index y = Inr j \<Longrightarrow> lookup (ht(i := c)) y = (if j = i then chain_search c y else lookup ht y)"
  by (auto simp: lookup_def hash_search_def split: option.splits)

lemma lookup_fun_upd_None:
  "table_index y = Inl err \<Longrightarrow> lookup ht y = None"
  by (auto simp: lookup_def hash_search_def)

lemma lookup_chain:
  "table_index y = Inr j \<Longrightarrow> lookup ht y = chain_search (ht j) y"
  by (auto simp: lookup_def hash_search_def split: option.splits)

lemma wf_table_upd:
  "wf_table ht \<Longrightarrow> distinct (map id_e c) \<Longrightarrow> list_all (wf_entity i) c \<Longrightarrow> wf_table (ht(i := c))"
  by (simp add: wf_table_def)

lemma lookup_entity_store:
  assumes "lookup ht (id_e e') = Some e"
  shows "lookup (entity_store ht e') y = (if y = id_e e' then Some e' else lookup ht y)"
proof -
  obtain i where i: "table_index (id_e e') = Inr i" "chain_search (ht i) (id_e e') = Some e"
    using assms by (auto simp: lookup_Some)
  have mem: "id_e e' \<in> id_e ` set (ht i)"
    using i(2) chain_search_None[of "ht i" "id_e e'"] by auto
  show ?thesis
  proof (cases "table_index y")
    case (Inl err)
    then show ?thesis using i by (auto simp: lookup_fun_upd_None)
  next
    case (Inr j)
    then show ?thesis
      using i mem by (auto simp: entity_store_def lookup_fun_upd chain_search_chain_store lookup_chain)
  qed
qed

lemma wf_entity_store:
  assumes "wf_table ht" "lookup ht (id_e e') = Some e" "wf_list (rel_list e')"
  shows "wf_table (entity_store ht e')"
proof -
  obtain i where i: "table_index (id_e e') = Inr i" "i < HASH_DIMENSION"
    using assms(2) by (auto simp: lookup_Some dest: table_index_bound)
  have "list_all (wf_entity i) (chain_store (ht i) e')"
    using assms(1,3) i by (intro list_all_chain_store) (auto simp: wf_table_def wf_entity_def)
  moreover have "distinct (map id_e (chain_store (ht i) e'))"
    using assms(1) i by (simp add: wf_table_def)
  ultimately show ?thesis using assms(1) i by (simp add: entity_store_def wf_table_upd)
qed

lemma hash_insert_props:
  assumes "wf_table ht" "lookup ht x = None" "hash_insert ht x = Inr ht'"
  shows "wf_table ht'"
    and "lookup ht' y = (if y = x then Some \<lparr>id_e = x, rel_list = []\<rparr> else lookup ht y)"
proof -
  obtain i where i: "table_index x = Inr i" "ht' = ht(i := \<lparr>id_e = x, rel_list = []\<rparr> # ht i)"
    using assms(3) by (auto simp: hash_insert_def split: sum.splits)
  have bound: "i < HASH_DIMENSION" using i(1) by (rule table_index_bound)
  have fresh: "x \<notin> id_e ` set (ht i)"
    using assms(2) i(1) by (simp add: lookup_chain chain_search_None)
  show "wf_table ht'"
    unfolding i(2) using assms(1) bound fresh i(1)
    by (intro wf_table_upd) (auto simp: wf_table_def wf_entity_def wf_list_def)
  show "lookup ht' y = (if y = x then Some \<lparr>id_e = x, rel_list = []\<rparr> else lookup ht y)"
  proof (cases "table_index y")
    case (Inl err)
    then show ?thesis using i by (auto simp: lookup_fun_upd_None)
  next
    case (Inr j)
    then show ?thesis using i by (auto simp: lookup_fun_upd lookup_chain)
  qed
qed

lemma hash_insert_ok: "hash_search ht x = Inr r \<Longrightarrow> \<exists>ht'. hash_insert ht x = Inr ht'"
  by (auto simp: hash_search_def hash_insert_def split: sum.splits)

lemma hash_delete_props:
  assumes "wf_table ht" "hash_delete ht x = Inr ht'"
  shows "wf_table ht'"
    and "lookup ht' y = (if y = x then None else lookup ht y)"
proof -
  obtain i where i: "table_index x = Inr i" "ht' = ht(i := chain_delete (ht i) x)"
    using assms(2) by (auto simp: hash_delete_def split: sum.splits)
  have bound: "i < HASH_DIMENSION" using i(1) by (rule table_index_bound)
  have d: "distinct (map id_e (ht i))" using assms(1) bound by (simp add: wf_table_def)
  have "list_all (wf_entity i) (chain_delete (ht i) x)"
    using assms(1) bound set_chain_delete[of "ht i" x] by (auto simp: wf_table_def list_all_iff)
  then show "wf_table ht'"
    unfolding i(2) using assms(1) d
    by (intro wf_table_upd) (simp_all add: map_id_chain_delete)
  show "lookup ht' y = (if y = x then None else lookup ht y)"
  proof (cases "table_index y")
    case (Inl err)
    then show ?thesis using i by (auto simp: lookup_fun_upd_None)
  next
    case (Inr j)
    then show ?thesis using i d by (auto simp: lookup_fun_upd lookup_chain chain_search_chain_delete)
  qed
qed

lemma hash_delete_ok: "hash_search ht x = Inr r \<Longrightarrow> \<exists>ht'. hash_delete ht x = Inr ht'"
  by (auto simp: hash_search_def hash_delete_def split: sum.splits)

lemma fst_delent_entity: "fst (delent_entity search k e dt) = delent_rel search k e"
  by (simp add: delent_rel_def delent_entity_def split: option.splits node.splits)

lemma wf_snd_delent_entity:
  "wf_tree dt \<Longrightarrow> wf_tree (snd (delent_entity search k e dt))"
proof -
  assume wf: "wf_tree dt"
  have "wf_tree (rb_delete_key dt x)" if "tree_search (root dt) (id_e e) = Node a x b" for a x b
  proof -
    have "x = id_e e" using that by (rule tree_search_Node)
    moreover have "id_e e \<in> set (elems dt)"
      using that wf tree_search_elems[OF wf, of "id_e e"] by auto
    ultimately show ?thesis using wf by (simp add: wf_rb_delete_key)
  qed
  then show ?thesis using wf
    by (auto simp: delent_entity_def split: option.splits node.splits)
qed

lemma delent_chain_char:
  "fst (delent_chain search k c dt) = map (delent_rel search k) c
   \<and> (wf_tree dt \<longrightarrow> wf_tree (snd (delent_chain search k c dt)))"
proof (induction c arbitrary: dt)
  case Nil
  then show ?case by simp
next
  case (Cons e es)
  obtain e' dt' where e': "delent_entity search k e dt = (e', dt')" by force
  obtain es' dt'' where es': "delent_chain search k es dt' = (es', dt'')" by force
  have "e' = delent_rel search k e" using fst_delent_entity[of search k e dt] e' by simp
  moreover have "wf_tree dt \<Longrightarrow> wf_tree dt'"
    using wf_snd_delent_entity[of dt search k e] e' by simp
  moreover have "es' = map (delent_rel search k) es" "wf_tree dt' \<Longrightarrow> wf_tree dt''"
    using Cons.IH[of dt'] es' by simp_all
  ultimately show ?case by (simp add: e' es')
qed

lemma delent_scan_char:
  "fst (delent_scan search k ht dt) =
     (\<lambda>i. if i < HASH_DIMENSION then map (delent_rel search k) (ht i) else ht i)
   \<and> (wf_tree dt \<longrightarrow> wf_tree (snd (delent_scan search k ht dt)))"
proof -
  define step where
    "step = (\<lambda>(i::nat) (h, d). let (c, d') = delent_chain search k (h i) d in (h(i := c), d'))"
  have "fst (fold step [0..<n] (ht, dt)) =
          (\<lambda>i. if i < n then map (delent_rel search k) (ht i) else ht i)
        \<and> (wf_tree dt \<longrightarrow> wf_tree (snd (fold step [0..<n] (ht, dt))))" for n
  proof (induction n)
    case 0
    then show ?case by simp
  next
    case (Suc n)
    obtain h d where hd: "fold step [0..<n] (ht, dt) = (h, d)" by force
    obtain c d' where c: "delent_chain search k (h n) d = (c, d')" by force
    have h: "h = (\<lambda>i. if i < n then map (delent_rel search k) (ht i) else ht i)"
      and d: "wf_tree dt \<Longrightarrow> wf_tree d"
      using Suc hd by simp_all
    have c': "c = map (delent_rel search k) (ht n)" and d': "wf_tree d \<Longrightarrow> wf_tree d'"
      using delent_chain_char[of search k "h n" d] c h by simp_all
    have "fold step [0..<Suc n] (ht, dt) = step n (fold step [0..<n] (ht, dt))"
      by simp
    also have "\<dots> = step n (h, d)" by (simp only: hd)
    also have "\<dots> = (h(n := c), d')" by (simp add: step_def c)
    finally have "fold step [0..<Suc n] (ht, dt) = (h(n := c), d')" .
    moreover have "h(n := c) = (\<lambda>i. if i < Suc n then map (delent_rel search k) (ht i) else ht i)"
      using h c' by (auto simp: fun_eq_iff less_Suc_eq)
    ultimately show ?case using d d' by simp
  qed
  then show ?thesis unfolding delent_scan_def step_def[symmetric] by blast
qed

lemma id_delent_rel [simp]: "id_e (delent_rel search k e) = id_e e"
  by (simp add: delent_rel_def delent_entity_def split: option.splits node.splits)

lemma rel_tree_wf: "wf_list l \<Longrightarrow> list_search l t = Some r \<Longrightarrow> wf_tree (tree r)"
  by (auto simp: wf_list_def list_all_iff dest: list_search_Some)

lemma wf_rel_tree: "wf_list (rel_list e) \<Longrightarrow> wf_tree (rel_tree e t)"
  by (auto simp: rel_tree_def rel_tree_wf split: option.splits)

lemma rel_tree_store:
  "list_search (rel_list e) k = Some l \<Longrightarrow>
   rel_tree (e\<lparr>rel_list := list_store (rel_list e) (l\<lparr>tree := tr\<rparr>)\<rparr>) t
     = (if t = k then tr else rel_tree e t)"
  using list_search_Some[of "rel_list e" k l] list_search_None[of "rel_list e" k]
  by (auto simp: rel_tree_def list_search_list_store)

lemma wf_list_rel_store:
  "wf_list (rel_list e) \<Longrightarrow> wf_tree tr \<Longrightarrow>
   wf_list (rel_list (e\<lparr>rel_list := list_store (rel_list e) (l\<lparr>tree := tr\<rparr>)\<rparr>))"
  by (simp add: wf_list_store)

lemma delent_rel_props:
  assumes wf: "wf_list (rel_list e)"
  shows "wf_list (rel_list (delent_rel search k e))"
    and "set (elems (rel_tree (delent_rel search k e) t)) =
          (if t = k then (if id_e e = search then {} else set (elems (rel_tree e t)) - {search})
           else set (elems (rel_tree e t)))"
proof -
  show "wf_list (rel_list (delent_rel search k e))"
  proof (cases "list_search (rel_list e) k")
    case None
    then show ?thesis using wf by (simp add: delent_rel_def delent_entity_def)
  next
    case (Some l)
    have wl: "wf_tree (tree l)" using wf Some by (rule rel_tree_wf)
    have "wf_tree (rb_delete_key (tree l) x)" if "tree_search (root (tree l)) search = Node a x b" for a x b
    proof -
      have "x = search" using that by (rule tree_search_Node)
      moreover have "search \<in> set (elems (tree l))"
        using that tree_search_elems[OF wl, of search] by auto
      ultimately show ?thesis using wl by (simp add: wf_rb_delete_key)
    qed
    then show ?thesis using wf Some wl
      by (auto simp: delent_rel_def delent_entity_def wf_list_store wf_clear_tree
               split: node.splits)
  qed
  show "set (elems (rel_tree (delent_rel search k e) t)) =
          (if t = k then (if id_e e = search then {} else set (elems (rel_tree e t)) - {search})
           else set (elems (rel_tree e t)))"
  proof (cases "list_search (rel_list e) k")
    case None
    then show ?thesis by (auto simp: delent_rel_def delent_entity_def rel_tree_def)
  next
    case (Some l)
    have wl: "wf_tree (tree l)" using wf Some by (rule rel_tree_wf)
    have rt: "rel_tree e k = tree l" using Some by (simp add: rel_tree_def)
    show ?thesis
    proof (cases "id_e e = search")
      case True
      then show ?thesis using Some by (simp add: delent_rel_def delent_entity_def rel_tree_store)
    next
      case False
      show ?thesis
      proof (cases "tree_search (root (tree l)) search")
        case NIL
        then have "search \<notin> set (elems (tree l))" using tree_search_elems[OF wl] by simp
        then show ?thesis using Some False NIL rt
          by (simp add: delent_rel_def delent_entity_def)
      next
        case (Node a x b)
        then have "x = search" by (rule tree_search_Node)
        then show ?thesis using Some False Node rt wl
          by (simp add: delent_rel_def delent_entity_def rel_tree_store elems_rb_delete_key)
      qed
    qed
  qed
qed

lemma wf_tree_count: "wf_tree t \<Longrightarrow> size_t t = count16 (set (elems t))"
  by (simp add: wf_tree_def count16_def distinct_card wf_tree_distinct)

lemma rel_size_count: "wf_list (rel_list e) \<Longrightarrow> rel_size e t = count16 (set (elems (rel_tree e t)))"
  by (simp add: rel_size_def wf_tree_count wf_rel_tree)

lemma nbrs_lookup: "lookup (ENTITIES s) x = Some e \<Longrightarrow> nbrs s x t = set (elems (rel_tree e t))"
  by (simp add: nbrs_def)

lemma nbrs_dead: "lookup (ENTITIES s) x = None \<Longrightarrow> nbrs s x t = {}"
  by (simp add: nbrs_def)

lemma finite_nbrs [simp]: "finite (nbrs s x t)"
  by (simp add: nbrs_def split: option.splits)

lemma entity_count:
  assumes "wf_table (ENTITIES s)" "e \<in> set (entities (ENTITIES s))"
  shows "rel_size e t = count16 (nbrs s (id_e e) t)"
proof -
  have l: "lookup (ENTITIES s) (id_e e) = Some e"
    using assms by (simp add: entities_lookup)
  then have "wf_list (rel_list e)" using assms(1) by (rule lookup_wf[rotated])
  then show ?thesis using l by (simp add: rel_size_count nbrs_lookup)
qed

lemma view_simps [simp]:
  "v_live (view s) = live s" "v_nbrs (view s) = nbrs s" "v_desc (view s) = descriptor s"
  by (simp_all add: view_def)

lemma max_size_msize:
  assumes "wf_table (ENTITIES s)"
  shows "max_size (entities (ENTITIES s)) t = msize (view s) t"
proof -
  have "(\<lambda>e. rel_size e t) ` set (entities (ENTITIES s))
      = (\<lambda>y. count16 (nbrs s y t)) ` live s"
    using assms by (auto simp: live_entities entity_count image_iff)
  then show ?thesis by (simp add: max_size_Max msize_def)
qed

lemma top_entities_tops:
  assumes "wf_table (ENTITIES s)"
  shows "top_entities (entities (ENTITIES s)) t = tops (view s) t"
  using assms
  by (auto simp: top_entities_def tops_def max_size_msize live_entities entity_count image_iff)

lemma descriptor_Some:
  "list_search (RELATION_TYPES s) t = Some d \<Longrightarrow>
   descriptor s t = Some (current_maximum d, set (elems (tree d)))"
  by (simp add: descriptor_def)

lemma descriptor_None:
  "list_search (RELATION_TYPES s) t = None \<Longrightarrow> descriptor s t = None"
  by (simp add: descriptor_def)

lemma view_eqI:
  "live s' = v_live v \<Longrightarrow> nbrs s' = v_nbrs v \<Longrightarrow> descriptor s' = v_desc v \<Longrightarrow> view s' = v"
  by (simp add: view_def)

lemma wf_stateD:
  "wf_state s \<Longrightarrow> wf_table (ENTITIES s)"
  "wf_state s \<Longrightarrow> sorted_wrt (<) (map key (RELATION_TYPES s))"
  "wf_state s \<Longrightarrow> distinct (map key (RELATION_TYPES s))"
  "wf_state s \<Longrightarrow> list_all (\<lambda>d. wf_tree (tree d)) (RELATION_TYPES s)"
  by (auto simp: wf_state_def strict_sorted_iff)

lemma wf_state_desc_tree:
  "wf_state s \<Longrightarrow> list_search (RELATION_TYPES s) t = Some d \<Longrightarrow> wf_tree (tree d)"
  by (auto simp: wf_state_def list_all_iff dest: list_search_Some)

lemma addent_sim:
  assumes "wf_state s" "addent s x = Inr s'"
  shows "wf_state s'" "view s' = a_addent x (view s)"
    "RELATION_TYPES s' = RELATION_TYPES s" "stdout s' = stdout s"
proof -
  obtain r where r: "hash_search (ENTITIES s) x = Inr r"
    using assms(2) by (auto simp: addent_def split: sum.splits)
  then have l: "lookup (ENTITIES s) x = r" by (rule hash_search_lookup)
  have "wf_state s' \<and> view s' = a_addent x (view s)
      \<and> RELATION_TYPES s' = RELATION_TYPES s \<and> stdout s' = stdout s"
  proof (cases r)
    case (Some e)
    then have "s' = s" using assms(2) r by (simp add: addent_def)
    moreover have "x \<in> live s" using l Some by (simp add: live_def)
    ultimately show ?thesis using assms(1)
      by (simp add: a_addent_def insert_absorb view_def)
  next
    case None
    then obtain ht where ht: "hash_insert (ENTITIES s) x = Inr ht" "s' = s\<lparr>ENTITIES := ht\<rparr>"
      using assms(2) r by (auto simp: addent_def split: sum.splits)
    have wft: "wf_table (ENTITIES s)" using assms(1) by (rule wf_stateD)
    note props = hash_insert_props[OF wft _ ht(1)]
    have lk: "lookup ht y = (if y = x then Some \<lparr>id_e = x, rel_list = []\<rparr> else lookup (ENTITIES s) y)" for y
      using props(2) l None by simp
    have "wf_state s'" using assms(1) props(1) l None ht(2) by (simp add: wf_state_def)
    moreover have "live s' = insert x (live s)"
      using lk by (auto simp: live_def ht(2))
    moreover have "nbrs s' = nbrs s"
      using lk l None by (auto simp: nbrs_def ht(2) fun_eq_iff rel_tree_def)
    moreover have "descriptor s' = descriptor s"
      by (simp add: descriptor_def ht(2) fun_eq_iff)
    ultimately show ?thesis
      by (simp add: a_addent_def ht(2) view_def)
  qed
  then show "wf_state s'" "view s' = a_addent x (view s)"
    "RELATION_TYPES s' = RELATION_TYPES s" "stdout s' = stdout s" by simp_all
qed

lemma types_get_or_create:
  assumes "wf_state s"
    and "(d, types) = (case list_search (RELATION_TYPES s) ty of
                        None \<Rightarrow> list_insert (RELATION_TYPES s) ty
                      | Some d \<Rightarrow> (d, RELATION_TYPES s))"
  shows "key d = ty" "wf_tree (tree d)"
    "ty \<in> key ` set types"
    "sorted_wrt (<) (map key types)"
    "list_all (\<lambda>d. wf_tree (tree d)) types"
    "\<And>k. k \<noteq> ty \<Longrightarrow> list_search types k = list_search (RELATION_TYPES s) k"
    "addrel_desc (Some (current_maximum d, set (elems (tree d)))) n to
       = addrel_desc (descriptor s ty) n to"
proof -
  note wf = wf_stateD[OF assms(1)]
  have "key d = ty \<and> wf_tree (tree d) \<and> ty \<in> key ` set types
      \<and> sorted_wrt (<) (map key types) \<and> list_all (\<lambda>d. wf_tree (tree d)) types
      \<and> (\<forall>k. k \<noteq> ty \<longrightarrow> list_search types k = list_search (RELATION_TYPES s) k)
      \<and> addrel_desc (Some (current_maximum d, set (elems (tree d)))) n to
           = addrel_desc (descriptor s ty) n to"
  proof (cases "list_search (RELATION_TYPES s) ty")
    case None
    then have d: "d = new_list_t ty" "types = list_insert_pos (RELATION_TYPES s) ty"
      using assms(2) by (simp_all add: list_insert_def)
    have fresh: "ty \<notin> key ` set (RELATION_TYPES s)" using None by (simp add: list_search_None)
    have "wf_tree (tree (new_list_t ty))" by (simp add: new_list_t_def)
    then show ?thesis
      using wf fresh None unfolding d
      by (simp add: sorted_list_insert_pos list_search_list_insert_pos list_all_iff
            descriptor_None addrel_desc_new)
  next
    case (Some d0)
    then have d: "d = d0" "types = RELATION_TYPES s" using assms(2) by simp_all
    have "ty \<in> key ` set (RELATION_TYPES s)"
      using Some list_search_None[of "RELATION_TYPES s" ty] by auto
    then show ?thesis
      using wf Some list_search_Some[OF Some] wf_state_desc_tree[OF assms(1) Some] unfolding d
      by (simp add: descriptor_Some)
  qed
  then show "key d = ty" "wf_tree (tree d)"
    "ty \<in> key ` set types"
    "sorted_wrt (<) (map key types)"
    "list_all (\<lambda>d. wf_tree (tree d)) types"
    "\<And>k. k \<noteq> ty \<Longrightarrow> list_search types k = list_search (RELATION_TYPES s) k"
    "addrel_desc (Some (current_maximum d, set (elems (tree d)))) n to
       = addrel_desc (descriptor s ty) n to"
    by simp_all
qed

lemma rels_get_or_create:
  assumes "wf_list (rel_list e)"
    and "(rel, rels) = (case list_search (rel_list e) ty of
                        None \<Rightarrow> list_insert_unordered (rel_list e) ty
                      | Some r \<Rightarrow> (r, rel_list e))"
    and "wf_tree tr"
  shows "tree rel = rel_tree e ty"
    "wf_list (rel_list (e\<lparr>rel_list := list_store rels (rel\<lparr>tree := tr\<rparr>)\<rparr>))"
    "rel_tree (e\<lparr>rel_list := list_store rels (rel\<lparr>tree := tr\<rparr>)\<rparr>) t
       = (if t = ty then tr else rel_tree e t)"
proof -
  have "tree rel = rel_tree e ty
      \<and> wf_list (rel_list (e\<lparr>rel_list := list_store rels (rel\<lparr>tree := tr\<rparr>)\<rparr>))
      \<and> rel_tree (e\<lparr>rel_list := list_store rels (rel\<lparr>tree := tr\<rparr>)\<rparr>) t
           = (if t = ty then tr else rel_tree e t)"
  proof (cases "list_search (rel_list e) ty")
    case None
    then have r: "rel = new_list_t ty" "rels = new_list_t ty # rel_list e"
      using assms(2) by (simp_all add: list_insert_unordered_def)
    have fresh: "ty \<notin> key ` set (rel_list e)" using None by (simp add: list_search_None)
    show ?thesis
      using assms(1,3) fresh None unfolding r
      by (auto simp: rel_tree_def new_list_t_def wf_list_def)
  next
    case (Some r0)
    then have r: "rel = r0" "rels = rel_list e" using assms(2) by simp_all
    show ?thesis
      using Some assms(1,3) unfolding r
      by (simp add: rel_tree_store wf_list_store) (simp add: rel_tree_def)
  qed
  then show "tree rel = rel_tree e ty"
    "wf_list (rel_list (e\<lparr>rel_list := list_store rels (rel\<lparr>tree := tr\<rparr>)\<rparr>))"
    "rel_tree (e\<lparr>rel_list := list_store rels (rel\<lparr>tree := tr\<rparr>)\<rparr>) t
       = (if t = ty then tr else rel_tree e t)"
    by simp_all
qed

lemma tree_add:
  assumes "wf_tree t"
  shows "wf_tree (if tree_search (root t) k = NIL then rb_insert t k else t)"
    "set (elems (if tree_search (root t) k = NIL then rb_insert t k else t)) = insert k (set (elems t))"
  using assms by (auto simp: tree_search_elems wf_rb_insert)

lemma addrel_sim:
  assumes wf: "wf_state s" and ar: "addrel s f t ty = Inr s'"
  shows "wf_state s'" "view s' = a_addrel f t ty (view s)" "stdout s' = stdout s"
proof -
  obtain fo to where r: "hash_search (ENTITIES s) f = Inr fo" "hash_search (ENTITIES s) t = Inr to"
    using ar by (auto simp: addrel_def split: sum.splits)
  then have l: "lookup (ENTITIES s) f = fo" "lookup (ENTITIES s) t = to"
    by (auto dest: hash_search_lookup)
  have "wf_state s' \<and> view s' = a_addrel f t ty (view s) \<and> stdout s' = stdout s"
  proof (cases "fo = None \<or> to = None")
    case True
    then have "s' = s" using ar r by (auto simp: addrel_def split: option.splits)
    moreover have "\<not> (f \<in> live s \<and> t \<in> live s)" using True l by (auto simp: live_def)
    ultimately show ?thesis using wf by (auto simp: a_addrel_def)
  next
    case False
    then obtain fe te where some: "fo = Some fe" "to = Some te" by auto
    have ids: "id_e fe = f" "id_e te = t" using l some by (auto dest: lookup_SomeD)
    have lv: "f \<in> live s" "t \<in> live s" using l some by (auto simp: live_def)
    have wft: "wf_table (ENTITIES s)" using wf by (rule wf_stateD)
    have wfl: "wf_list (rel_list te)" using wft l(2) some(2) by (auto intro: lookup_wf)
    obtain d types where dt: "(d, types) = (case list_search (RELATION_TYPES s) ty of
                        None \<Rightarrow> list_insert (RELATION_TYPES s) ty
                      | Some d \<Rightarrow> (d, RELATION_TYPES s))" by (metis surj_pair)
    obtain rel rels where rr: "(rel, rels) = (case list_search (rel_list te) ty of
                        None \<Rightarrow> list_insert_unordered (rel_list te) ty
                      | Some r \<Rightarrow> (r, rel_list te))" by (metis surj_pair)
    define tr where "tr = (if tree_search (root (tree rel)) f = NIL
                  then rb_insert (tree rel) f else tree rel)"
    define te' where "te' = te\<lparr>rel_list := list_store rels (rel\<lparr>tree := tr\<rparr>)\<rparr>"
    define d' where "d' = addrel_data d (size_t tr) t"
    have s': "s' = s\<lparr>ENTITIES := entity_store (ENTITIES s) te',
                    RELATION_TYPES := list_store types d'\<rparr>"
      using ar r some ids
      by (auto simp: addrel_def dt[symmetric] rr[symmetric] tr_def te'_def d'_def Let_def)
    note T = types_get_or_create[OF wf dt]
    have wrel: "wf_tree (rel_tree te ty)" using wfl by (rule wf_rel_tree)
    have relt: "tree rel = rel_tree te ty"
      using rels_get_or_create(1)[OF wfl rr wrel] .
    have wtr: "wf_tree tr" and str: "set (elems tr) = insert f (set (elems (rel_tree te ty)))"
      using tree_add[of "tree rel" f] wrel relt by (simp_all add: tr_def)
    note R = rels_get_or_create(2,3)[OF wfl rr wtr]
    have id': "id_e te' = t" using ids by (simp add: te'_def)
    have lk: "lookup (ENTITIES s') y = (if y = t then Some te' else lookup (ENTITIES s) y)" for y
      using lookup_entity_store[of "ENTITIES s" te' te y] l(2) some(2) id' by (simp add: s')
    have wft': "wf_table (ENTITIES s')"
      using wf_entity_store[of "ENTITIES s" te' te] wft l(2) some(2) id' R(1)
      by (simp add: s' te'_def)
    have kd': "key d' = ty" using T(1) by (simp add: d'_def)
    have wd': "wf_tree (tree d')" using T(2) by (simp add: d'_def wf_addrel_data)
    have ls: "list_search (RELATION_TYPES s') k = (if k = ty then Some d' else list_search (RELATION_TYPES s) k)" for k
      using T(3,6) kd' by (simp add: s' list_search_list_store)
    have "wf_state s'"
      using wft' T(4,5) wd' by (simp add: wf_state_def s' list_all_list_store)
    moreover have "live s' = live s"
      using lk l(2) some(2) by (auto simp: live_def)
    moreover have nb: "nbrs s' = (nbrs s)(t := (nbrs s t)(ty := insert f (nbrs s t ty)))"
      using lk l(2) some(2) R(2) str
      by (auto simp: nbrs_def fun_eq_iff te'_def)
    moreover have "descriptor s' = (descriptor s)(ty \<mapsto>
         addrel_desc (descriptor s ty) (count16 (insert f (nbrs s t ty))) t)"
    proof -
      have "size_t tr = count16 (insert f (nbrs s t ty))"
        using wtr str l(2) some(2) by (simp add: wf_tree_count nbrs_lookup)
      moreover have "(current_maximum d', set (elems (tree d')))
          = addrel_desc (descriptor s ty) (size_t tr) t"
        using addrel_data_desc[OF T(2), of "size_t tr" t] T(7)[of "size_t tr" t] by (simp add: d'_def)
      ultimately show ?thesis
        using ls by (auto simp: descriptor_def fun_eq_iff)
    qed
    ultimately show ?thesis using lv by (simp add: a_addrel_def s' view_def)
  qed
  then show "wf_state s'" "view s' = a_addrel f t ty (view s)" "stdout s' = stdout s"
    by simp_all
qed

lemma restore_sim:
  assumes wf: "wf_state s" and kd: "key data_list = type"
    and mem: "type \<in> key ` set (RELATION_TYPES s)" and wt: "wf_tree (tree data_list)"
  shows "\<exists>s'. restore_data_maximum s data_list type = Inr s' \<and> wf_state s'
            \<and> view s' = a_recompute type (view s)
            \<and> ENTITIES s' = ENTITIES s \<and> stdout s' = stdout s
            \<and> (\<forall>k. k \<noteq> type \<longrightarrow>
                  list_search (RELATION_TYPES s') k = list_search (RELATION_TYPES s) k)"
proof -
  note wfs = wf_stateD[OF wf]
  define d where "d = restore_scan type (ENTITIES s) (data_list\<lparr>current_maximum := 0\<rparr>)"
  have inv: "current_maximum d = msize (view s) type" "key d = type" "wf_tree (tree d)"
    "0 < msize (view s) type \<Longrightarrow> set (elems (tree d)) = tops (view s) type"
    using restore_chain_inv[of "entities (ENTITIES s)" "data_list\<lparr>current_maximum := 0\<rparr>" type]
      distinct_entities[OF wfs(1)] wt kd
    by (simp_all add: d_def restore_scan_entities max_size_msize[OF wfs(1)] top_entities_tops[OF wfs(1)])
  show ?thesis
  proof (cases "current_maximum d = 0")
    case True
    obtain l where l: "list_delete (RELATION_TYPES s) type = Inr l"
      using list_delete_Inr[OF mem] by auto
    note P = list_delete_props[OF l wfs(3)]
    have r: "restore_data_maximum s data_list type = Inr (s\<lparr>RELATION_TYPES := l\<rparr>)"
      using True l by (simp add: restore_data_maximum_def d_def[symmetric])
    have "set l \<subseteq> set (RELATION_TYPES s)" using P by auto
    then have "wf_state (s\<lparr>RELATION_TYPES := l\<rparr>)"
      using wf sorted_list_delete[OF l wfs(2)] by (auto simp: wf_state_def list_all_iff)
    moreover have "descriptor (s\<lparr>RELATION_TYPES := l\<rparr>) = (descriptor s)(type := None)"
      using P by (auto simp: descriptor_def fun_eq_iff)
    moreover have "live (s\<lparr>RELATION_TYPES := l\<rparr>) = live s" "nbrs (s\<lparr>RELATION_TYPES := l\<rparr>) = nbrs s"
      by (simp_all add: live_def nbrs_def fun_eq_iff)
    ultimately show ?thesis
      using r True inv(1) P by (simp add: a_recompute_def view_def)
  next
    case False
    then have pos: "0 < msize (view s) type" using inv(1) by (simp add: word_gt_0)
    let ?s' = "s\<lparr>RELATION_TYPES := list_store (RELATION_TYPES s) d\<rparr>"
    have r: "restore_data_maximum s data_list type = Inr ?s'"
      using False by (simp add: restore_data_maximum_def d_def[symmetric])
    have "wf_state ?s'"
      using wf inv(3) by (simp add: wf_state_def list_all_list_store)
    moreover have "descriptor ?s' = (descriptor s)(type \<mapsto> (msize (view s) type, tops (view s) type))"
      using inv pos mem by (auto simp: descriptor_def fun_eq_iff list_search_list_store)
    moreover have "live ?s' = live s" "nbrs ?s' = nbrs s"
      by (simp_all add: live_def nbrs_def fun_eq_iff)
    ultimately show ?thesis
      using r False inv(1,2) by (simp add: a_recompute_def view_def list_search_list_store)
  qed
qed

lemma delrel_sim:
  assumes wf: "wf_state s" and dr: "delrel s f t ty = Inr s'"
  shows "wf_state s'" "view s' = a_delrel f t ty (view s)" "stdout s' = stdout s"
proof -
  obtain fo to where r: "hash_search (ENTITIES s) f = Inr fo" "hash_search (ENTITIES s) t = Inr to"
    using dr by (auto simp: delrel_def split: sum.splits)
  then have l: "lookup (ENTITIES s) f = fo" "lookup (ENTITIES s) t = to"
    by (auto dest: hash_search_lookup)
  note wfs = wf_stateD[OF wf]
  have same: "wf_state s' \<and> view s' = a_delrel f t ty (view s) \<and> stdout s' = stdout s"
    if "s' = s" "\<not> (f \<in> live s \<and> t \<in> live s \<and> f \<in> nbrs s t ty) \<or> descriptor s ty = None"
    using that wf by (auto simp: a_delrel_def)
  have "wf_state s' \<and> view s' = a_delrel f t ty (view s) \<and> stdout s' = stdout s"
  proof (cases "fo = None \<or> to = None")
    case True
    then have "s' = s" using dr r by (auto simp: delrel_def split: option.splits)
    moreover have "\<not> (f \<in> live s \<and> t \<in> live s)" using True l by (auto simp: live_def)
    ultimately show ?thesis by (intro same) auto
  next
    case False
    then obtain fe te where some: "fo = Some fe" "to = Some te" by auto
    have ids: "id_e fe = f" "id_e te = t" using l some by (auto dest: lookup_SomeD)
    have lv: "f \<in> live s" "t \<in> live s" using l some by (auto simp: live_def)
    have wfl: "wf_list (rel_list te)" using wfs(1) l(2) some(2) by (auto intro: lookup_wf)
    have nb: "nbrs s t ty = set (elems (rel_tree te ty))"
      using l(2) some(2) by (simp add: nbrs_lookup)
    show ?thesis
    proof (cases "list_search (RELATION_TYPES s) ty")
      case None
      then have "s' = s" using dr r some by (simp add: delrel_def)
      then show ?thesis using None by (intro same) (simp_all add: descriptor_None)
    next
      case (Some data_list)
      note dl = Some
      have kd: "key data_list = ty" and mem: "ty \<in> key ` set (RELATION_TYPES s)"
        using list_search_Some[OF dl] by auto
      have wd: "wf_tree (tree data_list)" using wf dl by (rule wf_state_desc_tree)
      have desc: "descriptor s ty = Some (current_maximum data_list, set (elems (tree data_list)))"
        using dl by (rule descriptor_Some)
      show ?thesis
      proof (cases "list_search (rel_list te) ty")
        case None
        then have "s' = s" using dr r some dl by (simp add: delrel_def)
        moreover have "nbrs s t ty = {}" using nb None by (simp add: rel_tree_def)
        ultimately show ?thesis by (intro same) auto
      next
        case (Some rel)
        note rl = Some
        have rt: "rel_tree te ty = tree rel" using rl by (simp add: rel_tree_def)
        have wr: "wf_tree (tree rel)" using wfl rl by (rule rel_tree_wf)
        show ?thesis
        proof (cases "tree_search (root (tree rel)) f")
          case NIL
          then have "s' = s" using dr r some dl rl ids by (simp add: delrel_def)
          moreover have "f \<notin> nbrs s t ty" using NIL tree_search_elems[OF wr] nb rt by simp
          ultimately show ?thesis by (intro same) auto
        next
          case (Node a x b)
          have x: "x = f" using Node by (rule tree_search_Node)
          have fin: "f \<in> nbrs s t ty" using Node tree_search_elems[OF wr, of f] nb rt by simp
          define tr where "tr = rb_delete_key (tree rel) f"
          define te' where "te' = te\<lparr>rel_list := list_store (rel_list te) (rel\<lparr>tree := tr\<rparr>)\<rparr>"
          define s1 where "s1 = s\<lparr>ENTITIES := entity_store (ENTITIES s) te'\<rparr>"
          have wtr: "wf_tree tr" and str: "set (elems tr) = nbrs s t ty - {f}"
            using wr fin nb rt by (simp_all add: tr_def wf_rb_delete_key elems_rb_delete_key)
          have id': "id_e te' = t" using ids by (simp add: te'_def)
          have lk: "lookup (ENTITIES s1) y = (if y = t then Some te' else lookup (ENTITIES s) y)" for y
            using lookup_entity_store[of "ENTITIES s" te' te y] l(2) some(2) id' by (simp add: s1_def)
          have wft1: "wf_table (ENTITIES s1)"
            using wf_entity_store[of "ENTITIES s" te' te] wfs(1) l(2) some(2) id' wfl wtr
            by (simp add: s1_def te'_def wf_list_store)
          have wf1: "wf_state s1" using wf wft1 by (simp add: wf_state_def s1_def)
          have rt': "rel_tree te' k = (if k = ty then tr else rel_tree te k)" for k
            using rl by (simp add: te'_def rel_tree_store)
          have nb1: "nbrs s1 = (nbrs s)(t := (nbrs s t)(ty := nbrs s t ty - {f}))"
            using lk l(2) some(2) rt' str by (auto simp: nbrs_def fun_eq_iff)
          have lv1: "live s1 = live s" using lk l(2) some(2) by (auto simp: live_def)
          have ds1: "descriptor s1 = descriptor s" by (simp add: descriptor_def s1_def fun_eq_iff)
          define v1 where "v1 = (view s)\<lparr>v_nbrs := (nbrs s)(t := (nbrs s t)(ty := nbrs s t ty - {f}))\<rparr>"
          have v1: "view s1 = v1" using nb1 lv1 ds1 by (simp add: view_def v1_def)
          have sz: "size_t tr = count16 (nbrs s t ty - {f})"
            using wtr str by (simp add: wf_tree_count)
          have szd: "size_t (tree data_list) = count16 (set (elems (tree data_list)))"
            using wd by (rule wf_tree_count)
          have abs: "a_delrel f t ty (view s) =
              (if unat (count16 (nbrs s t ty - {f})) + 1 = unat (current_maximum data_list) then
                 (if 1 < count16 (set (elems (tree data_list)))
                  then v1\<lparr>v_desc := (descriptor s)(ty \<mapsto>
                          (current_maximum data_list, set (elems (tree data_list)) - {t}))\<rparr>
                  else a_recompute ty v1)
               else v1)"
            using lv fin desc by (simp add: a_delrel_def v1_def Let_def)
          have step: "delrel s f t ty =
              (if unat (size_t tr) + 1 = unat (current_maximum data_list) then
                 (if 1 < size_t (tree data_list) then
                    (case rb_delete (tree data_list) (tree_search (root (tree data_list)) t) of
                       Inl e \<Rightarrow> Inl e
                     | Inr dt \<Rightarrow> Inr (s1\<lparr>RELATION_TYPES :=
                                  list_store (RELATION_TYPES s) (data_list\<lparr>tree := dt\<rparr>)\<rparr>))
                  else restore_data_maximum s1 data_list ty)
               else Inr s1)"
            unfolding s1_def te'_def tr_def
            using r some dl rl Node ids x
            by (simp add: delrel_def Let_def)
          show ?thesis
          proof (cases "unat (size_t tr) + 1 = unat (current_maximum data_list)")
            case False
            then have "s' = s1" using dr step by simp
            then show ?thesis using wf1 v1 abs False sz by (simp add: s1_def)
          next
            case True
            note eq = True
            show ?thesis
            proof (cases "1 < size_t (tree data_list)")
              case False
              obtain s2 where s2: "restore_data_maximum s1 data_list ty = Inr s2" "wf_state s2"
                "view s2 = a_recompute ty (view s1)" "stdout s2 = stdout s1"
                using restore_sim[OF wf1 kd _ wd] mem by (auto simp: s1_def)
              have "s' = s2" using dr step eq False s2(1) by simp
              then show ?thesis
                using s2 v1 abs eq False sz szd by (simp add: s1_def)
            next
              case True
              then obtain dt where dt: "rb_delete (tree data_list) (tree_search (root (tree data_list)) t) = Inr dt"
                and s': "s' = s1\<lparr>RELATION_TYPES := list_store (RELATION_TYPES s) (data_list\<lparr>tree := dt\<rparr>)\<rparr>"
                using dr step eq by (auto split: sum.splits)
              obtain a' y b' where nd: "tree_search (root (tree data_list)) t = Node a' y b'"
                using dt by (cases "tree_search (root (tree data_list)) t") auto
              have y: "y = t" using nd by (rule tree_search_Node)
              have tin: "t \<in> set (elems (tree data_list))"
                using nd tree_search_elems[OF wd, of t] by simp
              have dt': "dt = rb_delete_key (tree data_list) t"
                using dt nd y by (auto simp: rb_delete_key_def)
              have wdt: "wf_tree dt" and sdt: "set (elems dt) = set (elems (tree data_list)) - {t}"
                using wd tin by (simp_all add: dt' wf_rb_delete_key elems_rb_delete_key)
              have "wf_state s'"
                using wf1 wdt by (simp add: s' wf_state_def s1_def list_all_list_store)
              moreover have "descriptor s' = (descriptor s)(ty \<mapsto>
                          (current_maximum data_list, set (elems (tree data_list)) - {t}))"
                using kd mem sdt by (auto simp: descriptor_def s' s1_def fun_eq_iff list_search_list_store)
              moreover have "live s' = live s1" "nbrs s' = nbrs s1"
                by (simp_all add: s' live_def nbrs_def fun_eq_iff)
              ultimately show ?thesis
                using abs eq True sz szd nb1 lv1 by (simp add: view_def v1_def s' s1_def)
            qed
          qed
        qed
      qed
    qed
  qed
  then show "wf_state s'" "view s' = a_delrel f t ty (view s)" "stdout s' = stdout s"
    by simp_all
qed

lemma chain_search_map:
  "(\<And>e. id_e (g e) = id_e e) \<Longrightarrow> chain_search (map g c) y = map_option g (chain_search c y)"
  by (induction c) auto

lemma delent_scan_props:
  assumes wft: "wf_table ht" and sc: "delent_scan x k ht dt0 = (ht', dt)"
  shows "wf_table ht'"
    and "lookup ht' y = map_option (delent_rel x k) (lookup ht y)"
    and "wf_tree dt0 \<Longrightarrow> wf_tree dt"
proof -
  have ht': "ht' = (\<lambda>i. if i < HASH_DIMENSION then map (delent_rel x k) (ht i) else ht i)"
    and wdt: "wf_tree dt0 \<Longrightarrow> wf_tree dt"
    using delent_scan_char[of x k ht dt0] sc by simp_all
  show "wf_tree dt0 \<Longrightarrow> wf_tree dt" by (rule wdt)
  show "wf_table ht'"
    unfolding wf_table_def
  proof (intro allI impI conjI)
    fix i assume i: "i < HASH_DIMENSION"
    have "map id_e (ht' i) = map id_e (ht i)" using i by (simp add: ht' comp_def)
    then show "distinct (map id_e (ht' i))" using wft i by (simp add: wf_table_def)
    show "list_all (wf_entity i) (ht' i)"
      using wft i delent_rel_props(1)[of _ x k]
      by (auto simp: ht' wf_table_def list_all_iff wf_entity_def)
  qed
  show "lookup ht' y = map_option (delent_rel x k) (lookup ht y)"
  proof (cases "table_index y")
    case (Inl err)
    then show ?thesis by (simp add: lookup_fun_upd_None)
  next
    case (Inr j)
    then have "j < HASH_DIMENSION" by (rule table_index_bound)
    then show ?thesis using Inr by (simp add: lookup_chain ht' chain_search_map)
  qed
qed

lemma a_recompute_cong:
  assumes "v_live w1 = v_live w2" "v_nbrs w1 = v_nbrs w2"
    "\<And>t. t \<noteq> k \<Longrightarrow> v_desc w1 t = v_desc w2 t"
  shows "a_recompute k w1 = a_recompute k (w2 :: view)"
proof -
  have "msize w1 k = msize w2 k" "tops w1 k = tops w2 k"
    using assms(1,2) by (simp_all add: msize_def tops_def)
  then show ?thesis
    using assms by (cases w1, cases w2) (auto simp: a_recompute_def fun_eq_iff)
qed

lemma delent_step:
  assumes wf: "wf_state s" and cur: "list_search (RELATION_TYPES s) (key rel_cursor) = Some rel_cursor"
    and sc: "delent_scan x (key rel_cursor) (ENTITIES s) (tree rel_cursor) = (ht, dt)"
  shows "\<exists>s2. restore_data_maximum
               (s\<lparr>ENTITIES := ht,
                  RELATION_TYPES := list_store (RELATION_TYPES s) (rel_cursor\<lparr>tree := dt\<rparr>)\<rparr>)
               (rel_cursor\<lparr>tree := dt\<rparr>) (key rel_cursor) = Inr s2
            \<and> wf_state s2 \<and> view s2 = a_delent_type x (key rel_cursor) (view s)
            \<and> stdout s2 = stdout s
            \<and> (\<forall>k. k \<noteq> key rel_cursor \<longrightarrow>
                  list_search (RELATION_TYPES s2) k = list_search (RELATION_TYPES s) k)"
proof -
  let ?k = "key rel_cursor"
  let ?s1 = "s\<lparr>ENTITIES := ht,
                RELATION_TYPES := list_store (RELATION_TYPES s) (rel_cursor\<lparr>tree := dt\<rparr>)\<rparr>"
  note wfs = wf_stateD[OF wf]
  have wc: "wf_tree (tree rel_cursor)" using wf cur by (rule wf_state_desc_tree)
  note S = delent_scan_props[OF wfs(1) sc]
  have wdt: "wf_tree dt" using S(3) wc by simp
  have mem: "?k \<in> key ` set (RELATION_TYPES s)"
    using list_search_Some[OF cur] by auto
  have wf1: "wf_state ?s1"
    using wf S(1) wdt by (simp add: wf_state_def list_all_list_store)
  have live1: "live ?s1 = live s"
    using S(2) by (auto simp: live_def)
  have nb1: "nbrs ?s1 = (\<lambda>y t. if t = ?k then (if y = x then {} else nbrs s y t - {x})
                            else nbrs s y t)"
  proof (intro ext)
    fix y t
    show "nbrs ?s1 y t = (if t = ?k then (if y = x then {} else nbrs s y t - {x}) else nbrs s y t)"
    proof (cases "lookup (ENTITIES s) y")
      case None
      then show ?thesis using S(2)[of y] by (simp add: nbrs_def)
    next
      case (Some e)
      then have "wf_list (rel_list e)" "id_e e = y"
        using wfs(1) by (auto intro: lookup_wf dest: lookup_SomeD)
      then show ?thesis
        using S(2)[of y] Some delent_rel_props(2)[of e x ?k t] by (simp add: nbrs_def)
    qed
  qed
  have ds1: "descriptor ?s1 t = (if t = ?k then Some (current_maximum rel_cursor, set (elems dt))
                                 else descriptor s t)" for t
    using mem by (simp add: descriptor_def list_search_list_store)
  obtain s2 where s2: "restore_data_maximum ?s1 (rel_cursor\<lparr>tree := dt\<rparr>) ?k = Inr s2"
    "wf_state s2" "view s2 = a_recompute ?k (view ?s1)" "stdout s2 = stdout ?s1"
    "\<forall>k. k \<noteq> ?k \<longrightarrow> list_search (RELATION_TYPES s2) k = list_search (RELATION_TYPES ?s1) k"
  proof -
    have "key ` set (list_store (RELATION_TYPES s) (rel_cursor\<lparr>tree := dt\<rparr>))
        = key ` set (RELATION_TYPES s)"
      by (simp flip: set_map)
    then have mem1: "?k \<in> key ` set (RELATION_TYPES ?s1)" using mem by simp
    have "wf_tree (tree (rel_cursor\<lparr>tree := dt\<rparr>))" "key (rel_cursor\<lparr>tree := dt\<rparr>) = ?k"
      using wdt by simp_all
    from restore_sim[OF wf1 this(2) mem1 this(1)] that show ?thesis by blast
  qed
  have "a_recompute ?k (view ?s1) = a_delent_type x ?k (view s)"
    unfolding a_delent_type_def
    by (rule a_recompute_cong) (simp_all add: live1 nb1 ds1 cong: if_cong)
  moreover have "\<forall>k. k \<noteq> ?k \<longrightarrow> list_search (RELATION_TYPES s2) k = list_search (RELATION_TYPES s) k"
    using s2(5) by (simp add: list_search_list_store)
  ultimately show ?thesis using s2 by auto
qed

lemma delent_types_sim:
  assumes "wf_state s" "distinct (map key ds)"
    "\<forall>d \<in> set ds. list_search (RELATION_TYPES s) (key d) = Some d"
  shows "\<exists>s'. delent_types x ds s = Inr s' \<and> wf_state s'
            \<and> view s' = fold (a_delent_type x) (map key ds) (view s)
            \<and> stdout s' = stdout s"
  using assms
proof (induction ds arbitrary: s)
  case Nil
  then show ?case by simp
next
  case (Cons d ds)
  obtain ht dt where sc: "delent_scan x (key d) (ENTITIES s) (tree d) = (ht, dt)" by force
  have cur: "list_search (RELATION_TYPES s) (key d) = Some d" using Cons.prems(3) by simp
  obtain s2 where s2: "restore_data_maximum
               (s\<lparr>ENTITIES := ht,
                  RELATION_TYPES := list_store (RELATION_TYPES s) (d\<lparr>tree := dt\<rparr>)\<rparr>)
               (d\<lparr>tree := dt\<rparr>) (key d) = Inr s2"
     "wf_state s2" "view s2 = a_delent_type x (key d) (view s)" "stdout s2 = stdout s"
     "\<forall>k. k \<noteq> key d \<longrightarrow> list_search (RELATION_TYPES s2) k = list_search (RELATION_TYPES s) k"
    using delent_step[OF Cons.prems(1) cur sc] by blast
  have "list_search (RELATION_TYPES s2) (key d') = Some d'" if "d' \<in> set ds" for d'
  proof -
    have "key d \<notin> set (map key ds)" using Cons.prems(2) by simp
    moreover have "key d' \<in> set (map key ds)" using that by simp
    ultimately have "key d' \<noteq> key d" by metis
    then show ?thesis using s2(5) Cons.prems(3) that by simp
  qed
  then have "\<forall>d' \<in> set ds. list_search (RELATION_TYPES s2) (key d') = Some d'" by blast
  then obtain s' where s': "delent_types x ds s2 = Inr s'" "wf_state s'"
     "view s' = fold (a_delent_type x) (map key ds) (view s2)" "stdout s' = stdout s2"
    using Cons.IH[OF s2(2)] Cons.prems(2) by auto
  have "delent_types x (d # ds) s = Inr s'"
    using sc s2(1) s'(1) by (simp add: Let_def)
  then show ?case using s' s2 by simp
qed

lemma msize_cong:
  "v_live w1 = v_live w2 \<Longrightarrow> (\<And>y. v_nbrs w1 y t = v_nbrs w2 y t) \<Longrightarrow> msize w1 t = msize w2 t"
  by (simp add: msize_def)

lemma tops_cong:
  "v_live w1 = v_live w2 \<Longrightarrow> (\<And>y. v_nbrs w1 y t = v_nbrs w2 y t) \<Longrightarrow> tops w1 t = tops w2 t"
  by (simp add: tops_def msize_def)

lemma a_delent_type_simps:
  "v_live (a_delent_type x k v) = v_live v"
  "v_nbrs (a_delent_type x k v) y t =
     (if t = k then (if y = x then {} else v_nbrs v y t - {x}) else v_nbrs v y t)"
  "t \<noteq> k \<Longrightarrow> v_desc (a_delent_type x k v) t = v_desc v t"
  by (simp_all add: a_delent_type_def a_recompute_def)

lemma fold_delent_live: "v_live (fold (a_delent_type x) ks v) = v_live v"
  by (induction ks arbitrary: v) (simp_all add: a_delent_type_simps)

lemma fold_delent_nbrs:
  "v_nbrs (fold (a_delent_type x) ks v) y t =
     (if t \<in> set ks then (if y = x then {} else v_nbrs v y t - {x}) else v_nbrs v y t)"
  by (induction ks arbitrary: v) (auto simp: a_delent_type_simps)

lemma fold_delent_desc_other:
  "t \<notin> set ks \<Longrightarrow> v_desc (fold (a_delent_type x) ks v) t = v_desc v t"
  by (induction ks arbitrary: v) (simp_all add: a_delent_type_simps)

lemma fold_delent_desc:
  assumes "distinct ks" "t \<in> set ks"
  shows "v_desc (fold (a_delent_type x) ks v) t =
         (let w = v\<lparr>v_nbrs := (\<lambda>y t. if y = x then {} else v_nbrs v y t - {x})\<rparr> in
          if msize w t = 0 then None else Some (msize w t, tops w t))"
  using assms
proof (induction ks arbitrary: v)
  case Nil
  then show ?case by simp
next
  case (Cons k ks)
  let ?w = "\<lambda>v. v\<lparr>v_nbrs := (\<lambda>y t. if y = x then {} else v_nbrs v y t - {x})\<rparr>"
  show ?case
  proof (cases "t = k")
    case True
    then have "t \<notin> set ks" using Cons.prems by simp
    then have "v_desc (fold (a_delent_type x) (k # ks) v) t = v_desc (a_delent_type x k v) t"
      by (simp add: fold_delent_desc_other)
    moreover define W where "W = v\<lparr>v_nbrs := (\<lambda>y t. if t = k then (if y = x then {} else v_nbrs v y t - {x})
                            else v_nbrs v y t)\<rparr>"
    have "v_desc (a_delent_type x k v) k = (if msize W k = 0 then None else Some (msize W k, tops W k))"
      by (simp add: a_delent_type_def a_recompute_def W_def)
    moreover have "msize W k = msize (?w v) k"
      by (rule msize_cong) (simp_all add: W_def)
    moreover have "tops W k = tops (?w v) k"
      by (rule tops_cong) (simp_all add: W_def)
    ultimately show ?thesis using True by (simp add: Let_def)
  next
    case False
    then have t: "t \<in> set ks" "distinct ks" using Cons.prems by simp_all
    have "msize (?w (a_delent_type x k v)) t = msize (?w v) t"
      using False by (intro msize_cong) (simp_all add: a_delent_type_simps)
    moreover have "tops (?w (a_delent_type x k v)) t = tops (?w v) t"
      using False by (intro tops_cong) (simp_all add: a_delent_type_simps)
    ultimately show ?thesis
      using Cons.IH[OF t(2) t(1), of "a_delent_type x k v"] by (simp add: Let_def)
  qed
qed

lemma count16_empty [simp]: "count16 {} = 0"
  by (simp add: count16_def)

lemma msize_remove:
  assumes "v_nbrs w x t = {}"
  shows "msize (w\<lparr>v_live := v_live w - {x}\<rparr>) t = msize w t"
proof -
  have "insert 0 ((\<lambda>y. count16 (v_nbrs w y t)) ` (v_live w - {x}))
      = insert 0 ((\<lambda>y. count16 (v_nbrs w y t)) ` v_live w)"
    using assms by auto
  then show ?thesis by (simp add: msize_def)
qed

lemma tops_remove:
  assumes "v_nbrs w x t = {}" "msize w t \<noteq> 0"
  shows "tops (w\<lparr>v_live := v_live w - {x}\<rparr>) t = tops w t"
proof -
  have "msize (w\<lparr>v_live := v_live w - {x}\<rparr>) t = msize w t"
    using assms(1) by (rule msize_remove)
  then show ?thesis using assms by (auto simp: tops_def)
qed

lemma dom_descriptor: "dom (descriptor s) = key ` set (RELATION_TYPES s)"
  by (auto simp: descriptor_def dom_def list_search_None image_iff)

lemma delent_sim:
  assumes wf: "wf_state s" and de: "delent s x = Inr s'"
  shows "wf_state s'" "view s' = a_delent x (view s)" "stdout s' = stdout s"
proof -
  obtain r where r: "hash_search (ENTITIES s) x = Inr r"
    using de by (auto simp: delent_def split: sum.splits)
  then have l: "lookup (ENTITIES s) x = r" by (rule hash_search_lookup)
  note wfs = wf_stateD[OF wf]
  have "wf_state s' \<and> view s' = a_delent x (view s) \<and> stdout s' = stdout s"
  proof (cases r)
    case None
    then have "s' = s" using de r by (simp add: delent_def)
    moreover have "x \<notin> live s" using l None by (simp add: live_def)
    ultimately show ?thesis using wf by (simp add: a_delent_def)
  next
    case (Some e)
    have id: "id_e e = x" using l Some by (auto dest: lookup_SomeD)
    have xl: "x \<in> live s" using l Some by (simp add: live_def)
    let ?ks = "map key (RELATION_TYPES s)"
    have "\<forall>d \<in> set (RELATION_TYPES s). list_search (RELATION_TYPES s) (key d) = Some d"
      using wfs(3) by (simp add: list_search_in)
    then obtain s1 where s1: "delent_types x (RELATION_TYPES s) s = Inr s1" "wf_state s1"
       "view s1 = fold (a_delent_type x) ?ks (view s)" "stdout s1 = stdout s"
      using delent_types_sim[OF wf wfs(3), of x] by blast
    obtain ht where ht: "hash_delete (ENTITIES s1) x = Inr ht" and s': "s' = s1\<lparr>ENTITIES := ht\<rparr>"
      using de r Some id s1(1) by (auto simp: delent_def split: sum.splits)
    note H = hash_delete_props[OF wf_stateD(1)[OF s1(2)] ht]
    have live1: "live s1 = live s" and nb1: "\<And>y t. nbrs s1 y t =
        (if t \<in> set ?ks then (if y = x then {} else nbrs s y t - {x}) else nbrs s y t)"
      and ds1o: "\<And>t. t \<notin> set ?ks \<Longrightarrow> descriptor s1 t = descriptor s t"
      and ds1: "\<And>t. t \<in> set ?ks \<Longrightarrow> descriptor s1 t =
         (let w = (view s)\<lparr>v_nbrs := (\<lambda>y t. if y = x then {} else nbrs s y t - {x})\<rparr> in
          if msize w t = 0 then None else Some (msize w t, tops w t))"
      using fold_delent_live[of x ?ks "view s"] fold_delent_nbrs[of x ?ks "view s"]
        fold_delent_desc_other[of _ ?ks x "view s"] fold_delent_desc[OF wfs(3), of _ x "view s"]
      by (simp_all add: s1(3)[symmetric] cong: if_cong)
    have dom: "set ?ks = dom (descriptor s)" by (simp add: dom_descriptor)
    have wf': "wf_state s'" using s1(2) H(1) by (simp add: wf_state_def s')
    have live': "live s' = live s - {x}"
      using H(2) live1 by (auto simp: live_def s')
    define N1 where "N1 = (\<lambda>y t. if y = x then {}
                                    else if t \<in> dom (descriptor s) then nbrs s y t - {x}
                                    else nbrs s y t)"
    have nb': "nbrs s' = N1"
      using H(2) nb1 dom by (auto simp: nbrs_def s' fun_eq_iff N1_def split: option.splits)
    define v1 where "v1 = \<lparr>v_live = live s - {x}, v_nbrs = N1, v_desc = descriptor s\<rparr>"
    have ds': "descriptor s' t = (if t \<in> dom (descriptor s)
                               then (if msize v1 t = 0 then None else Some (msize v1 t, tops v1 t))
                               else None)" for t
    proof (cases "t \<in> dom (descriptor s)")
      case False
      then show ?thesis using ds1o[of t] dom by (auto simp: descriptor_def s')
    next
      case True
      define w where "w = (view s)\<lparr>v_nbrs := (\<lambda>y t. if y = x then {} else nbrs s y t - {x})\<rparr>"
      have wx: "v_nbrs w x t = {}" by (simp add: w_def)
      have m: "msize v1 t = msize w t"
      proof -
        have "msize v1 t = msize (w\<lparr>v_live := v_live w - {x}\<rparr>) t"
          using True by (intro msize_cong) (simp_all add: v1_def w_def N1_def)
        then show ?thesis using msize_remove[OF wx] by simp
      qed
      have tp: "tops v1 t = tops w t" if "msize w t \<noteq> 0"
      proof -
        have "tops v1 t = tops (w\<lparr>v_live := v_live w - {x}\<rparr>) t"
          using True by (intro tops_cong) (simp_all add: v1_def w_def N1_def)
        then show ?thesis using tops_remove[OF wx that] by simp
      qed
      have "descriptor s' t = descriptor s1 t" by (simp add: descriptor_def s')
      then show ?thesis
        using ds1[of t] True dom m tp by (simp add: Let_def w_def[symmetric])
    qed
    have "a_delent x (view s) = \<lparr>v_live = live s - {x}, v_nbrs = N1,
        v_desc = (\<lambda>t. if t \<in> dom (descriptor s)
                               then (if msize v1 t = 0 then None else Some (msize v1 t, tops v1 t))
                               else None)\<rparr>"
      using xl by (simp add: a_delent_def Let_def v1_def N1_def cong: if_cong)
    then show ?thesis
      using wf' live' nb' ds' s1(4) by (simp add: view_def s' fun_eq_iff)
  qed
  then show "wf_state s'" "view s' = a_delent x (view s)" "stdout s' = stdout s"
    by simp_all
qed

lemma wf_init_state: "wf_state init_state"
  by (simp add: wf_state_def init_state_def wf_table_def init_table_def)

lemma lookup_init [simp]: "lookup init_table x = None"
  by (simp add: lookup_def hash_search_def init_table_def split: sum.splits)

lemma view_init:
  "view init_state = \<lparr>v_live = {}, v_nbrs = (\<lambda>y t. {}), v_desc = (\<lambda>t. None)\<rparr>"
  by (simp add: view_def live_def nbrs_def descriptor_def init_state_def fun_eq_iff)

lemma report_sim: "wf_state s \<Longrightarrow> wf_state (report s) \<and> view (report s) = view s"
  by (simp add: report_def wf_state_def view_def live_def nbrs_def descriptor_def fun_eq_iff)

lemma exec_sim:
  assumes "wf_state s" "exec c s = Inr s'"
  shows "wf_state s'" "view s' = a_exec c (view s)"
proof -
  have "wf_state s' \<and> view s' = a_exec c (view s)"
  proof (cases c)
    case (Addent x)
    then show ?thesis using assms addent_sim[of s x s'] by simp
  next
    case (Delent x)
    then show ?thesis using assms delent_sim[of s x s'] by simp
  next
    case (Addrel f t ty)
    then show ?thesis using assms addrel_sim[of s f t ty s'] by simp
  next
    case (Delrel f t ty)
    then show ?thesis using assms delrel_sim[of s f t ty s'] by simp
  next
    case Report
    then show ?thesis using assms report_sim[of s] by auto
  qed
  then show "wf_state s'" "view s' = a_exec c (view s)" by simp_all
qed

lemma run_sim:
  "wf_state s \<Longrightarrow> run cs s = Inr s' \<Longrightarrow> wf_state s' \<and> view s' = fold a_exec cs (view s)"
proof (induction cs arbitrary: s)
  case Nil
  then show ?case by simp
next
  case (Cons c cs)
  then obtain s1 where s1: "exec c s = Inr s1" "run cs s1 = Inr s'"
    by (auto split: sum.splits)
  show ?case
    using Cons.IH[OF exec_sim(1)[OF Cons.prems(1) s1(1)] s1(2)] exec_sim(2)[OF Cons.prems(1) s1(1)]
    by simp
qed


lemma unat_of_nat16: "a \<le> 65535 \<Longrightarrow> unat (of_nat a :: 16 word) = a"
  by (simp add: unat_of_nat)

lemma of_nat16_eq: "a \<le> 65535 \<Longrightarrow> b \<le> 65535 \<Longrightarrow> (of_nat a :: 16 word) = of_nat b \<longleftrightarrow> a = b"
  by (metis unat_of_nat16)


lemma of_nat16_le: "a \<le> 65535 \<Longrightarrow> b \<le> 65535 \<Longrightarrow> (of_nat a :: 16 word) \<le> of_nat b \<longleftrightarrow> a \<le> b"
  by (simp add: word_le_nat_alt unat_of_nat16)

lemma of_nat16_0: "a \<le> 65535 \<Longrightarrow> (of_nat a :: 16 word) = 0 \<longleftrightarrow> a = 0"
  using of_nat16_eq[of a 0] by simp

lemma msize_ge:
  "finite (v_live v) \<Longrightarrow> y \<in> v_live v \<Longrightarrow> count16 (v_nbrs v y t) \<le> msize v t"
  by (simp add: msize_def)

lemma msize_attained:
  assumes "finite (v_live v)" "msize v t \<noteq> 0"
  shows "\<exists>y \<in> v_live v. count16 (v_nbrs v y t) = msize v t"
proof -
  have "msize v t \<in> insert 0 ((\<lambda>y. count16 (v_nbrs v y t)) ` v_live v)"
    unfolding msize_def using assms(1) by (intro Max_in) simp_all
  then show ?thesis using assms(2) by auto
qed

lemma msize_eqI:
  assumes "finite (v_live v)" "\<And>y. y \<in> v_live v \<Longrightarrow> count16 (v_nbrs v y t) \<le> m"
    and "m = 0 \<or> (\<exists>y \<in> v_live v. count16 (v_nbrs v y t) = m)"
  shows "msize v t = m"
  unfolding msize_def
proof (rule Max_eqI)
  show "finite (insert 0 ((\<lambda>y. count16 (v_nbrs v y t)) ` v_live v))" using assms(1) by simp
  show "y \<le> m" if "y \<in> insert 0 ((\<lambda>y. count16 (v_nbrs v y t)) ` v_live v)" for y
    using that assms(2) by auto
  show "m \<in> insert 0 ((\<lambda>y. count16 (v_nbrs v y t)) ` v_live v)"
    using assms(3) by auto
qed

lemma msize_0:
  assumes "finite (v_live v)"
  shows "msize v t = 0 \<longleftrightarrow> (\<forall>y \<in> v_live v. count16 (v_nbrs v y t) = 0)"
proof
  assume "msize v t = 0"
  then show "\<forall>y \<in> v_live v. count16 (v_nbrs v y t) = 0"
    using msize_ge[OF assms, of _ t] by (metis word_le_0_iff)
next
  assume "\<forall>y \<in> v_live v. count16 (v_nbrs v y t) = 0"
  then show "msize v t = 0" using assms by (intro msize_eqI) simp_all
qed

lemma vinv_card:
  assumes "vinv v" "small v"
  shows "card (v_nbrs v y t) \<le> 65535" "finite (v_nbrs v y t)"
proof -
  have sub: "v_nbrs v y t \<subseteq> v_live v" and fin: "finite (v_live v)"
    using assms(1) by (auto simp: vinv_def)
  show "finite (v_nbrs v y t)" using sub fin by (rule finite_subset)
  have "card (v_nbrs v y t) \<le> card (v_live v)" using sub fin by (intro card_mono)
  then show "card (v_nbrs v y t) \<le> 65535" using assms(2) by (simp add: small_def)
qed

lemma count16_exact:
  "finite A \<Longrightarrow> A \<subseteq> L \<Longrightarrow> finite L \<Longrightarrow> card L \<le> 65535 \<Longrightarrow> unat (count16 A) = card A"
  by (metis card_mono count16_def order_trans unat_of_nat16)

lemma count16_0_iff:
  assumes "finite L" "A \<subseteq> L" "card L \<le> 65535"
  shows "count16 A = 0 \<longleftrightarrow> A = {}"
proof -
  have "finite A" using assms by (metis finite_subset)
  moreover have "card A \<le> 65535" using assms by (meson card_mono order_trans)
  ultimately show ?thesis by (simp add: count16_def of_nat16_0)
qed

lemma vinv_update:
  assumes inv: "vinv v" and t: "t \<in> v_live v" and A': "A' \<subseteq> v_live v"
    and v': "v' = v\<lparr>v_nbrs := (v_nbrs v)(t := (v_nbrs v t)(ty := A')),
                   v_desc := (v_desc v)(ty := D)\<rparr>"
    and none: "D = None \<Longrightarrow> \<forall>y. v_nbrs v' y ty = {}"
    and some: "\<And>m L. D = Some (m, L) \<Longrightarrow> m = msize v' ty \<and> m \<noteq> 0 \<and> L = tops v' ty"
  shows "vinv v'"
proof -
  have live: "v_live v' = v_live v" by (simp add: v')
  have nb: "v_nbrs v' y k = (if y = t \<and> k = ty then A' else v_nbrs v y k)" for y k
    by (simp add: v')
  have ds: "v_desc v' k = (if k = ty then D else v_desc v k)" for k
    by (simp add: v')
  have other: "msize v' k = msize v k" "tops v' k = tops v k" if "k \<noteq> ty" for k
    using that by (auto intro!: msize_cong tops_cong simp: live nb)
  show ?thesis
    unfolding vinv_def
  proof (intro conjI allI impI)
    show "finite (v_live v')" using inv by (simp add: live vinv_def)
    show "v_nbrs v' y k \<subseteq> v_live v'" for y k
      using inv A' by (auto simp: live nb vinv_def)
    show "v_nbrs v' y k = {}" if "y \<notin> v_live v'" for y k
      using that inv t by (auto simp: live nb vinv_def)
    show "v_nbrs v' y k = {}" if "v_desc v' k = None" for k y
    proof (cases "k = ty")
      case True
      then show ?thesis using that none by (simp add: ds)
    next
      case False
      then show ?thesis using that inv by (simp add: ds nb vinv_def)
    qed
    fix k m L assume d: "v_desc v' k = Some (m, L)"
    have "m = msize v' k \<and> m \<noteq> 0 \<and> L = tops v' k"
    proof (cases "k = ty")
      case True
      then have "D = Some (m, L)" using d by (simp add: ds)
      then show ?thesis using True some[of m L] by blast
    next
      case False
      then have "v_desc v k = Some (m, L)" using d by (simp add: ds)
      then have "m = msize v k \<and> m \<noteq> 0 \<and> L = tops v k"
        using inv unfolding vinv_def by blast
      then show ?thesis using other[OF False] by metis
    qed
    then show "m = msize v' k" "m \<noteq> 0" "L = tops v' k" by blast+
  qed
qed

lemma vinv_addent:
  assumes "vinv v"
  shows "vinv (a_addent x v)"
proof (cases "x \<in> v_live v")
  case True
  then show ?thesis using assms by (simp add: a_addent_def insert_absorb)
next
  case False
  let ?v = "a_addent x v"
  have dead: "v_nbrs v x t = {}" for t using assms False by (simp add: vinv_def)
  have fin: "finite (v_live v)" using assms by (simp add: vinv_def)
  have ms: "msize ?v t = msize v t" for t
  proof -
    have "insert 0 ((\<lambda>y. count16 (v_nbrs v y t)) ` insert x (v_live v))
        = insert 0 ((\<lambda>y. count16 (v_nbrs v y t)) ` v_live v)"
      using dead by auto
    then show ?thesis by (simp add: msize_def a_addent_def)
  qed
  have tp: "tops ?v t = tops v t" if "msize v t \<noteq> 0" for t
    using that dead ms[of t] by (auto simp: tops_def a_addent_def)
  show ?thesis
    unfolding vinv_def
  proof (intro conjI allI impI)
    show "finite (v_live ?v)" using fin by (simp add: a_addent_def)
    show "v_nbrs ?v y t \<subseteq> v_live ?v" for y t
      using assms by (auto simp: a_addent_def vinv_def)
    show "v_nbrs ?v y t = {}" if "y \<notin> v_live ?v" for y t
      using that assms by (auto simp: a_addent_def vinv_def)
    show "v_nbrs ?v y t = {}" if "v_desc ?v t = None" for t y
      using that assms by (auto simp: a_addent_def vinv_def)
    fix t m L assume "v_desc ?v t = Some (m, L)"
    then have "v_desc v t = Some (m, L)" by (simp add: a_addent_def)
    then have "m = msize v t" "m \<noteq> 0" "L = tops v t" using assms by (auto simp: vinv_def)
    then show "m = msize ?v t" "m \<noteq> 0" "L = tops ?v t" using ms[of t] tp[of t] by metis+
  qed
qed

lemma desc_default:
  assumes inv: "vinv v"
    and p: "(m0, L0) = (case v_desc v ty of None \<Rightarrow> (0, {}) | Some p \<Rightarrow> p)"
  shows "m0 = msize v ty" "m0 \<noteq> 0 \<Longrightarrow> L0 = tops v ty"
proof -
  have fin: "finite (v_live v)" using inv by (simp add: vinv_def)
  have "m0 = msize v ty \<and> (m0 \<noteq> 0 \<longrightarrow> L0 = tops v ty)"
  proof (cases "v_desc v ty")
    case None
    then have "\<forall>y. v_nbrs v y ty = {}" using inv unfolding vinv_def by blast
    then have "msize v ty = 0" using fin by (simp add: msize_0)
    then show ?thesis using p None by simp
  next
    case (Some q)
    then have "v_desc v ty = Some (m0, L0)" using p by simp
    then show ?thesis using inv unfolding vinv_def by blast
  qed
  then show "m0 = msize v ty" "m0 \<noteq> 0 \<Longrightarrow> L0 = tops v ty" by blast+
qed

lemma vinv_addrel:
  assumes inv: "vinv v" and sm: "small v"
  shows "vinv (a_addrel f t ty v)"
proof (cases "f \<in> v_live v \<and> t \<in> v_live v")
  case False
  then show ?thesis using inv by (auto simp: a_addrel_def)
next
  case True
  then have fl: "f \<in> v_live v" and tl: "t \<in> v_live v" by simp_all
  have fin: "finite (v_live v)" using inv by (simp add: vinv_def)
  have bound: "card (v_live v) \<le> 65535" using sm by (simp add: small_def)
  define A where "A = v_nbrs v t ty"
  define A' where "A' = insert f A"
  define n where "n = count16 A'"
  define D where "D = addrel_desc (v_desc v ty) n t"
  define v' where "v' = v\<lparr>v_nbrs := (v_nbrs v)(t := (v_nbrs v t)(ty := A')),
                          v_desc := (v_desc v)(ty := Some D)\<rparr>"
  have v'eq: "a_addrel f t ty v = v'"
    using True by (simp add: a_addrel_def v'_def D_def n_def A'_def A_def)
  have Asub: "A \<subseteq> v_live v" using inv unfolding vinv_def A_def by blast
  have A'sub: "A' \<subseteq> v_live v" using Asub fl by (simp add: A'_def)
  have finA: "finite A" "finite A'" using Asub A'sub fin by (auto intro: finite_subset)
  have cards: "card A \<le> 65535" "card A' \<le> 65535" "card A \<le> card A'"
    using Asub A'sub fin bound finA
    by (meson card_mono order_trans, meson card_mono order_trans, simp add: A'_def card_insert_le)
  have n0: "n \<noteq> 0"
    using count16_0_iff[OF fin A'sub bound] by (simp add: n_def A'_def)
  have live': "v_live v' = v_live v" by (simp add: v'_def)
  have c': "count16 (v_nbrs v' y ty) = (if y = t then n else count16 (v_nbrs v y ty))" for y
    by (simp add: v'_def n_def)
  have ctn: "count16 (v_nbrs v t ty) \<le> n"
    using cards by (simp add: n_def count16_def A_def[symmetric] of_nat16_le)
  obtain m0 L0 where p: "(m0, L0) = (case v_desc v ty of None \<Rightarrow> (0, {}) | Some p \<Rightarrow> p)"
    by (metis surj_pair)
  note dd = desc_default[OF inv p]
  have Deq: "D = (if n = m0 then (m0, insert t L0) else if m0 < n then (n, {t}) else (m0, L0))"
    by (simp add: D_def addrel_desc_def p[symmetric])
  have cle: "count16 (v_nbrs v y ty) \<le> m0" if "y \<in> v_live v" for y
    using msize_ge[OF fin that, of ty] dd(1) by simp
  have main: "fst D = msize v' ty \<and> fst D \<noteq> 0 \<and> snd D = tops v' ty"
  proof -
    consider (eq) "n = m0" | (gt) "m0 < n" | (lt) "n < m0" by (metis linorder_neqE)
    then show ?thesis
    proof cases
      case eq
      have L0: "L0 = tops v ty" using dd(2) eq n0 by simp
      have ms: "msize v' ty = m0"
      proof (rule msize_eqI)
        show "finite (v_live v')" using fin by (simp add: live')
        show "count16 (v_nbrs v' y ty) \<le> m0" if "y \<in> v_live v'" for y
          using that cle eq by (simp add: c' live')
        show "m0 = 0 \<or> (\<exists>y \<in> v_live v'. count16 (v_nbrs v' y ty) = m0)"
          using tl eq by (auto simp: c' live')
      qed
      have "tops v' ty = insert t (tops v ty)"
        unfolding tops_def ms using tl eq dd(1) by (auto simp: c' live')
      then show ?thesis using eq ms L0 n0 by (simp add: Deq)
    next
      case gt
      have ms: "msize v' ty = n"
      proof (rule msize_eqI)
        show "finite (v_live v')" using fin by (simp add: live')
        show "count16 (v_nbrs v' y ty) \<le> n" if "y \<in> v_live v'" for y
        proof (cases "y = t")
          case True
          then show ?thesis by (simp add: c')
        next
          case False
          have "count16 (v_nbrs v y ty) \<le> m0" using that cle by (simp add: live')
          then show ?thesis using False gt by (simp add: c' order.strict_implies_order order_trans)
        qed
        show "n = 0 \<or> (\<exists>y \<in> v_live v'. count16 (v_nbrs v' y ty) = n)"
          using tl by (auto simp: c' live')
      qed
      have "count16 (v_nbrs v y ty) \<noteq> n" if "y \<in> v_live v" for y
        using cle[OF that] gt by (metis leD)
      then have "tops v' ty = {t}"
        unfolding tops_def ms using tl by (auto simp: c' live')
      then show ?thesis using gt ms n0 by (simp add: Deq less_imp_neq[symmetric] less_not_sym)
    next
      case lt
      have m0: "m0 \<noteq> 0" using lt by (metis word_not_simps(1))
      have L0: "L0 = tops v ty" using dd(2) m0 by simp
      obtain y0 where y0: "y0 \<in> v_live v" "count16 (v_nbrs v y0 ty) = m0"
        using msize_attained[OF fin, of ty] m0 dd(1) by auto
      have ct: "count16 (v_nbrs v t ty) \<noteq> m0" using ctn lt by (metis leD)
      then have yt: "y0 \<noteq> t" using y0 by auto
      have ms: "msize v' ty = m0"
      proof (rule msize_eqI)
        show "finite (v_live v')" using fin by (simp add: live')
        show "count16 (v_nbrs v' y ty) \<le> m0" if "y \<in> v_live v'" for y
          using that cle lt by (simp add: c' live' order.strict_implies_order)
        show "m0 = 0 \<or> (\<exists>y \<in> v_live v'. count16 (v_nbrs v' y ty) = m0)"
          using y0 yt by (auto simp: c' live')
      qed
      have "n \<noteq> m0" using lt by (metis less_irrefl)
      then have "tops v' ty = tops v ty"
        unfolding tops_def ms using ct dd(1) by (auto simp: c' live')
      moreover have "D = (m0, L0)" using lt \<open>n \<noteq> m0\<close> by (simp add: Deq less_not_sym)
      ultimately show ?thesis using ms L0 m0 by simp
    qed
  qed
  have "vinv v'"
  proof (rule vinv_update[OF inv tl A'sub])
    show "v' = v\<lparr>v_nbrs := (v_nbrs v)(t := (v_nbrs v t)(ty := A')),
                   v_desc := (v_desc v)(ty := Some D)\<rparr>" by (simp add: v'_def)
    show "Some D = None \<Longrightarrow> \<forall>y. v_nbrs v' y ty = {}" by simp
    show "Some D = Some (m, L) \<Longrightarrow> m = msize v' ty \<and> m \<noteq> 0 \<and> L = tops v' ty" for m L
      using main by auto
  qed
  then show ?thesis by (simp add: v'eq)
qed

lemma count16_less_1:
  assumes "finite L" "A \<subseteq> L" "card L \<le> 65535"
  shows "1 < count16 A \<longleftrightarrow> 1 < card A"
proof -
  have "finite A" using assms by (metis finite_subset)
  then have "unat (count16 A) = card A" using assms by (intro count16_exact)
  then show ?thesis by (simp add: word_less_nat_alt)
qed

lemma vinv_delrel:
  assumes inv: "vinv v" and sm: "small v"
  shows "vinv (a_delrel f t ty v)"
proof (cases "f \<in> v_live v \<and> t \<in> v_live v \<and> f \<in> v_nbrs v t ty")
  case False
  then show ?thesis using inv by (auto simp: a_delrel_def)
next
  case True
  then have fl: "f \<in> v_live v" and tl: "t \<in> v_live v" and fA: "f \<in> v_nbrs v t ty" by simp_all
  have fin: "finite (v_live v)" using inv by (simp add: vinv_def)
  have bound: "card (v_live v) \<le> 65535" using sm by (simp add: small_def)
  define A where "A = v_nbrs v t ty"
  define A' where "A' = A - {f}"
  define n' where "n' = count16 A'"
  define k where "k = count16 A"
  define N' where "N' = (v_nbrs v)(t := (v_nbrs v t)(ty := A'))"
  define v1 where "v1 = v\<lparr>v_nbrs := N'\<rparr>"
  have "v_desc v ty \<noteq> None" using inv fA unfolding vinv_def by blast
  then obtain m L where d: "v_desc v ty = Some (m, L)" by auto
  then have mL: "m = msize v ty" "m \<noteq> 0" "L = tops v ty" using inv unfolding vinv_def by blast+
  have Asub: "A \<subseteq> v_live v" using inv unfolding vinv_def A_def by blast
  have A'sub: "A' \<subseteq> v_live v" using Asub by (auto simp: A'_def)
  have finA: "finite A" "finite A'" using Asub A'sub fin by (auto intro: finite_subset)
  have cA: "card A \<le> 65535" using Asub fin bound by (meson card_mono order_trans)
  have cA': "card A' = card A - 1" "1 \<le> card A"
    using fA finA by (auto simp: A'_def A_def card_gt_0_iff Suc_le_eq)
  have u1: "unat n' = card A'"
    unfolding n'_def count16_def by (rule unat_of_nat16) (use cA cA' in linarith)
  have u2: "unat k = card A"
    unfolding k_def count16_def by (rule unat_of_nat16) (rule cA)
  have un: "unat n' + 1 = unat k"
    using u1 u2 cA' by linarith
  have lt: "n' < k"
    using u1 u2 cA' by (simp add: word_less_nat_alt)
  have km: "k \<le> m" using msize_ge[OF fin tl, of ty] mL(1) by (simp add: k_def A_def)
  have cond: "unat n' + 1 = unat m \<longleftrightarrow> k = m" using un by (metis word_unat_eq_iff)
  have live1: "v_live v1 = v_live v" by (simp add: v1_def)
  have c1: "count16 (v_nbrs v1 y ty) = (if y = t then n' else count16 (v_nbrs v y ty))" for y
    by (simp add: v1_def N'_def n'_def)
  have cle: "count16 (v_nbrs v y ty) \<le> m" if "y \<in> v_live v" for y
    using msize_ge[OF fin that, of ty] mL(1) by simp
  have c1le: "count16 (v_nbrs v1 y ty) \<le> m" if "y \<in> v_live v" for y
    using cle[OF that] lt km by (simp add: c1 order.strict_implies_order order_trans)
  have n'm: "n' \<noteq> m" using lt km by (metis leD)
  have abs: "a_delrel f t ty v =
      (if k = m then (if 1 < count16 L then v1\<lparr>v_desc := (v_desc v)(ty \<mapsto> (m, L - {t}))\<rparr>
                      else a_recompute ty v1)
       else v1)"
    using True d cond by (simp add: a_delrel_def Let_def v1_def N'_def n'_def A'_def A_def)
  have keep: "msize v1 ty = m \<and> tops v1 ty = L - (if k = m then {t} else {})"
    if other: "\<exists>y0 \<in> v_live v. y0 \<noteq> t \<and> count16 (v_nbrs v y0 ty) = m"
  proof -
    have ms: "msize v1 ty = m"
    proof (rule msize_eqI)
      show "finite (v_live v1)" using fin by (simp add: live1)
      show "count16 (v_nbrs v1 y ty) \<le> m" if "y \<in> v_live v1" for y
        using that c1le by (simp add: live1)
      show "m = 0 \<or> (\<exists>y \<in> v_live v1. count16 (v_nbrs v1 y ty) = m)"
        using other by (auto simp: c1 live1)
    qed
    have "tops v1 ty = L - (if k = m then {t} else {})"
      unfolding tops_def ms mL(3) using n'm mL(1) by (auto simp: c1 live1 k_def A_def)
    then show ?thesis using ms by simp
  qed
  show ?thesis
  proof (cases "k = m")
    case False
    obtain y0 where y0: "y0 \<in> v_live v" "count16 (v_nbrs v y0 ty) = m"
      using msize_attained[OF fin, of ty] mL by auto
    then have "y0 \<noteq> t" using False by (auto simp: k_def A_def)
    then have K: "msize v1 ty = m" "tops v1 ty = L" using keep y0 False by auto
    have "vinv v1"
    proof (rule vinv_update[OF inv tl A'sub])
      show "v1 = v\<lparr>v_nbrs := (v_nbrs v)(t := (v_nbrs v t)(ty := A')),
                   v_desc := (v_desc v)(ty := Some (m, L))\<rparr>"
        using d by (simp add: v1_def N'_def fun_upd_idem)
      show "Some (m, L) = None \<Longrightarrow> \<forall>y. v_nbrs v1 y ty = {}" by simp
      show "Some (m, L) = Some (m', L') \<Longrightarrow> m' = msize v1 ty \<and> m' \<noteq> 0 \<and> L' = tops v1 ty" for m' L'
        using K mL(2) by auto
    qed
    then show ?thesis using False by (simp add: abs)
  next
    case True
    note eq = True
    have tL: "t \<in> L" using eq tl mL by (simp add: tops_def k_def A_def)
    have Lsub: "L \<subseteq> v_live v" using mL(3) by (auto simp: tops_def)
    show ?thesis
    proof (cases "1 < count16 L")
      case True
      then have "1 < card L" using count16_less_1[OF fin Lsub bound] by simp
      then obtain y1 where "y1 \<in> L" "y1 \<noteq> t"
        by (metis card_le_Suc0_iff_eq finite_subset[OF Lsub fin] not_less One_nat_def)
      then have "\<exists>y0 \<in> v_live v. y0 \<noteq> t \<and> count16 (v_nbrs v y0 ty) = m"
        using mL by (auto simp: tops_def)
      then have K: "msize v1 ty = m" "tops v1 ty = L - {t}" using keep eq by auto
      let ?v' = "v1\<lparr>v_desc := (v_desc v)(ty \<mapsto> (m, L - {t}))\<rparr>"
      have K': "msize ?v' ty = m" "tops ?v' ty = L - {t}"
        using K msize_cong[of ?v' v1 ty] tops_cong[of ?v' v1 ty] by simp_all
      have "vinv ?v'"
      proof (rule vinv_update[OF inv tl A'sub])
        show "?v' = v\<lparr>v_nbrs := (v_nbrs v)(t := (v_nbrs v t)(ty := A')),
                   v_desc := (v_desc v)(ty := Some (m, L - {t}))\<rparr>"
          by (simp add: v1_def N'_def)
        show "Some (m, L - {t}) = None \<Longrightarrow> \<forall>y. v_nbrs ?v' y ty = {}" by simp
        show "Some (m, L - {t}) = Some (m', L') \<Longrightarrow> m' = msize ?v' ty \<and> m' \<noteq> 0 \<and> L' = tops ?v' ty" for m' L'
          using K' mL(2) by auto
      qed
      then show ?thesis using eq True by (simp add: abs)
    next
      case False
      define R where "R = (if msize v1 ty = 0 then None else Some (msize v1 ty, tops v1 ty))"
      let ?v' = "v\<lparr>v_nbrs := (v_nbrs v)(t := (v_nbrs v t)(ty := A')), v_desc := (v_desc v)(ty := R)\<rparr>"
      have v': "a_recompute ty v1 = ?v'"
        by (simp add: a_recompute_def v1_def N'_def R_def)
      have K': "msize ?v' ty = msize v1 ty" "tops ?v' ty = tops v1 ty"
        using msize_cong[of ?v' v1 ty] tops_cong[of ?v' v1 ty] by (simp_all add: v1_def N'_def)
      have "vinv ?v'"
      proof (rule vinv_update[OF inv tl A'sub refl])
        show "\<forall>y. v_nbrs ?v' y ty = {}" if "R = None"
        proof
          fix y
          have z: "msize v1 ty = 0" using that by (simp add: R_def split: if_splits)
          show "v_nbrs ?v' y ty = {}"
          proof (cases "y \<in> v_live v")
            case True
            have sub: "v_nbrs v1 y ty \<subseteq> v_live v"
              using A'sub inv unfolding vinv_def v1_def N'_def by auto
            have "count16 (v_nbrs v1 y ty) = 0"
              using z msize_0[of v1 ty] fin True by (simp add: live1)
            then have "v_nbrs v1 y ty = {}" using count16_0_iff[OF fin sub bound] by simp
            then show ?thesis by (simp add: v1_def N'_def)
          next
            case False
            then have "v_nbrs v y ty = {}" "y \<noteq> t" using inv tl unfolding vinv_def by auto
            then show ?thesis by simp
          qed
        qed
        show "R = Some (m', L') \<Longrightarrow> m' = msize ?v' ty \<and> m' \<noteq> 0 \<and> L' = tops ?v' ty" for m' L'
          using K' by (auto simp: R_def split: if_splits)
      qed
      then show ?thesis using eq False by (simp add: abs v')
    qed
  qed
qed

lemma vinv_delent:
  assumes inv: "vinv v" and sm: "small v"
  shows "vinv (a_delent x v)"
proof (cases "x \<in> v_live v")
  case False
  then show ?thesis using inv by (simp add: a_delent_def)
next
  case True
  have fin: "finite (v_live v)" using inv by (simp add: vinv_def)
  have bound: "card (v_live v) \<le> 65535" using sm by (simp add: small_def)
  define N1 where "N1 = (\<lambda>y t. if y = x then {}
                                    else if t \<in> dom (v_desc v) then v_nbrs v y t - {x}
                                    else v_nbrs v y t)"
  define v1 where "v1 = \<lparr>v_live = v_live v - {x}, v_nbrs = N1, v_desc = v_desc v\<rparr>"
  define D where "D = (\<lambda>t. if t \<in> dom (v_desc v)
                               then (if msize v1 t = 0 then None else Some (msize v1 t, tops v1 t))
                               else None)"
  define v' where "v' = v1\<lparr>v_desc := D\<rparr>"
  have v'eq: "a_delent x v = v'"
    using True by (simp add: a_delent_def Let_def v'_def v1_def N1_def D_def cong: if_cong)
  have live': "v_live v' = v_live v - {x}" and nb': "v_nbrs v' = N1" and ds': "v_desc v' = D"
    by (simp_all add: v'_def v1_def)
  have ms: "msize v' t = msize v1 t" "tops v' t = tops v1 t" for t
    by (auto intro!: msize_cong tops_cong simp: v'_def)
  have fin': "finite (v_live v')" using fin by (simp add: live')
  have bound': "card (v_live v') \<le> 65535"
    using bound fin by (metis live' card_Diff_subset_Int card_mono Diff_subset order_trans)
  have sub: "N1 y t \<subseteq> v_live v - {x}" for y t
  proof -
    have "v_nbrs v y t \<subseteq> v_live v" using inv unfolding vinv_def by blast
    moreover have "v_nbrs v y t = {}" if "t \<notin> dom (v_desc v)"
      using that inv unfolding vinv_def by (metis domIff)
    ultimately show ?thesis by (auto simp: N1_def)
  qed
  have dead: "N1 y t = {}" if "y \<notin> v_live v - {x}" for y t
  proof -
    have "v_nbrs v y t = {}" if "y \<notin> v_live v" using that inv unfolding vinv_def by blast
    then show ?thesis using \<open>y \<notin> v_live v - {x}\<close> by (auto simp: N1_def)
  qed
  show ?thesis
    unfolding v'eq vinv_def
  proof (intro conjI allI impI)
    show "finite (v_live v')" by (rule fin')
    show "v_nbrs v' y t \<subseteq> v_live v'" for y t using sub by (simp add: live' nb')
    show "v_nbrs v' y t = {}" if "y \<notin> v_live v'" for y t using that dead by (simp add: live' nb')
    show "v_nbrs v' y t = {}" if none: "v_desc v' t = None" for t y
    proof (cases "t \<in> dom (v_desc v)")
      case False
      then have "v_nbrs v y t = {}" using inv unfolding vinv_def by (metis domIff)
      then show ?thesis using False by (simp add: nb' N1_def)
    next
      case True
      then have z: "msize v' t = 0" using none by (simp add: ds' D_def ms split: if_splits)
      show ?thesis
      proof (cases "y \<in> v_live v'")
        case False
        then show ?thesis using dead by (simp add: live' nb')
      next
        case True
        then have "count16 (v_nbrs v' y t) = 0" using z msize_0[OF fin', of t] by simp
        moreover have "v_nbrs v' y t \<subseteq> v_live v'" using sub by (simp add: live' nb')
        ultimately show ?thesis using count16_0_iff[OF fin' _ bound'] by simp
      qed
    qed
    fix t m L assume "v_desc v' t = Some (m, L)"
    then have "m = msize v' t \<and> m \<noteq> 0 \<and> L = tops v' t"
      by (auto simp: ds' D_def ms split: if_splits)
    then show "m = msize v' t" "m \<noteq> 0" "L = tops v' t" by blast+
  qed
qed

lemma live_a_exec:
  "v_live (a_exec c v) \<subseteq> (case c of Addent x \<Rightarrow> insert x (v_live v) | _ \<Rightarrow> v_live v)"
  by (cases c)
     (auto simp: a_addent_def a_addrel_def a_delrel_def a_delent_def a_recompute_def Let_def
           split: option.splits if_splits)

lemma vinv_a_exec: "vinv v \<Longrightarrow> small v \<Longrightarrow> vinv (a_exec c v)"
  by (cases c) (simp_all add: vinv_addent vinv_addrel vinv_delrel vinv_delent)

lemma card_a_exec:
  assumes "vinv v"
  shows "card (v_live (a_exec c v)) \<le> card (v_live v) + (if is_addent c then 1 else 0)"
proof -
  have fin: "finite (v_live v)" using assms by (simp add: vinv_def)
  show ?thesis
  proof (cases c)
    case (Addent x)
    then show ?thesis using fin by (simp add: a_addent_def card_insert_if)
  next
    case (Delent x)
    then show ?thesis using live_a_exec[of c v] fin by (simp add: card_mono)
  next
    case (Addrel f t ty)
    then show ?thesis using live_a_exec[of c v] fin by (simp add: card_mono)
  next
    case (Delrel f t ty)
    then show ?thesis using live_a_exec[of c v] fin by (simp add: card_mono)
  next
    case Report
    then show ?thesis by simp
  qed
qed

lemma vinv_fold:
  "vinv v \<Longrightarrow> card (v_live v) + addents cs \<le> 65535 \<Longrightarrow>
   vinv (fold a_exec cs v) \<and> small (fold a_exec cs v)"
proof (induction cs arbitrary: v)
  case Nil
  then show ?case by (simp add: small_def)
next
  case (Cons c cs)
  have sm: "small v" using Cons.prems(2) by (simp add: small_def)
  have "vinv (a_exec c v)" using Cons.prems(1) sm by (rule vinv_a_exec)
  moreover have "card (v_live (a_exec c v)) + addents cs \<le> 65535"
    using card_a_exec[OF Cons.prems(1), of c] Cons.prems(2)
    by (cases "is_addent c") (simp_all add: addents_def)
  ultimately show ?case using Cons.IH by simp
qed

lemma vinv_init: "vinv (view init_state)"
  by (simp add: view_init vinv_def msize_def tops_def)

lemma run_vinv:
  assumes "run cs init_state = Inr s" "addents cs \<le> 65535"
  shows "wf_state s" "vinv (view s)" "small (view s)"
proof -
  have "wf_state s \<and> view s = fold a_exec cs (view init_state)"
    using run_sim[OF wf_init_state assms(1)] .
  moreover have "vinv (fold a_exec cs (view init_state)) \<and> small (fold a_exec cs (view init_state))"
    using assms(2) by (intro vinv_fold vinv_init) (simp add: view_init)
  ultimately show "wf_state s" "vinv (view s)" "small (view s)" by simp_all
qed

lemma max_in_degree_Max:
  "max_in_degree s t = Max (insert 0 ((\<lambda>e. in_deg e t) ` set (entities (ENTITIES s))))"
  using Max.set_eq_fold[of 0 "map (\<lambda>e. in_deg e t) (entities (ENTITIES s))"]
  by (simp add: max_in_degree_def)

lemma unat_Max:
  fixes S :: "16 word set"
  assumes "finite S" "S \<noteq> {}"
  shows "unat (Max S) = Max (unat ` S)"
  by (rule mono_Max_commute) (auto simp: mono_def word_le_nat_alt assms)

lemma entity_in_deg:
  assumes "wf_table (ENTITIES s)" "e \<in> set (entities (ENTITIES s))"
  shows "in_deg e t = card (nbrs s (id_e e) t)"
  using assms by (simp add: entities_lookup in_deg_def nbrs_lookup)

lemma vinv_descD:
  "vinv (view s) \<Longrightarrow> descriptor s t = Some (m, L) \<Longrightarrow>
   m = msize (view s) t \<and> m \<noteq> 0 \<and> L = tops (view s) t"
  by (simp add: vinv_def)

lemma vinv_subD: "vinv (view s) \<Longrightarrow> nbrs s y t \<subseteq> live s"
  by (simp add: vinv_def)


lemma leader_bridge:
  assumes wf: "wf_state s" and inv: "vinv (view s)" and sm: "small (view s)"
  shows "leader_inv s"
  unfolding leader_inv_def list_all_iff
proof
  fix d assume d: "d \<in> set (RELATION_TYPES s)"
  note wfs = wf_stateD[OF wf]
  let ?t = "key d"
  let ?m = "current_maximum d"
  let ?es = "entities (ENTITIES s)"
  have "list_search (RELATION_TYPES s) ?t = Some d" using wfs(3) d by (rule list_search_in)
  then have "descriptor s ?t = Some (?m, set (elems (tree d)))" by (rule descriptor_Some)
  then have mL: "?m = msize (view s) ?t" "?m \<noteq> 0" "set (elems (tree d)) = tops (view s) ?t"
    using vinv_descD[OF inv] by blast+
  have fin: "finite (live s)" using wfs(1) by (rule finite_live)
  have bound: "card (live s) \<le> 65535" using sm by (simp add: small_def)
  have sub: "nbrs s y t \<subseteq> live s" for y t using inv by (rule vinv_subD)
  have ex: "unat (count16 (nbrs s y t)) = card (nbrs s y t)" for y t
    using sub fin bound by (intro count16_exact) simp_all
  have deg: "in_deg e t = unat (count16 (nbrs s (id_e e) t))" if "e \<in> set ?es" for e t
    using entity_in_deg[OF wfs(1) that] ex by simp
  have "unat (msize (view s) ?t)
      = Max (unat ` insert 0 ((\<lambda>y. count16 (nbrs s y ?t)) ` live s))"
    unfolding msize_def using fin by (subst unat_Max) simp_all
  also have "unat ` insert 0 ((\<lambda>y. count16 (nbrs s y ?t)) ` live s)
      = insert 0 ((\<lambda>e. in_deg e ?t) ` set ?es)"
    using deg by (auto simp: live_entities[OF wfs(1)] image_iff)
  finally have p1: "unat ?m = max_in_degree s ?t"
    using mL(1) by (simp add: max_in_degree_Max)
  have p2: "1 \<le> unat ?m" using mL(2) by (simp add: unat_gt_0 Suc_le_eq)
  have "tops (view s) ?t = id_e ` {e \<in> set ?es. in_deg e ?t = unat ?m}"
    using deg mL(1) by (auto simp: tops_def live_entities[OF wfs(1)] image_iff word_unat_eq_iff)
  then have p3: "set (elems (tree d)) =
          set (map id_e (filter (\<lambda>e. in_deg e ?t = unat ?m) ?es))"
    using mL(3) by simp
  show "leader_ok s d" using p1 p2 p3 by (simp add: leader_ok_def)
qed

lemma hashable_iff: "hashable x \<longleftrightarrow> (\<exists>i. table_index x = Inr i)"
  by (simp add: hashable_def split: sum.splits)

lemma hash_search_ok: "hashable x \<Longrightarrow> hash_search ht x = Inr (lookup ht x)"
  by (auto simp: hashable_iff hash_search_def lookup_def split: option.splits)


lemma addent_ok: "hashable x \<Longrightarrow> \<exists>s'. addent s x = Inr s'"
  by (auto simp: hashable_iff addent_def hash_search_def hash_insert_def split: option.splits)

lemma addrel_ok: "hashable f \<Longrightarrow> hashable t \<Longrightarrow> \<exists>s'. addrel s f t ty = Inr s'"
  by (auto simp: addrel_def hash_search_ok Let_def split: option.splits prod.splits)

lemma delent_ok:
  assumes "wf_state s" "hashable x"
  shows "\<exists>s'. delent s x = Inr s'"
proof (cases "lookup (ENTITIES s) x")
  case None
  then show ?thesis using assms(2) by (simp add: delent_def hash_search_ok)
next
  case (Some e)
  note wfs = wf_stateD[OF assms(1)]
  have id: "id_e e = x" using Some by (auto dest: lookup_SomeD)
  have "\<forall>d \<in> set (RELATION_TYPES s). list_search (RELATION_TYPES s) (key d) = Some d"
    using wfs(3) by (simp add: list_search_in)
  then obtain s1 where s1: "delent_types x (RELATION_TYPES s) s = Inr s1"
    using delent_types_sim[OF assms(1) wfs(3), of x] by blast
  obtain ht where "hash_delete (ENTITIES s1) x = Inr ht"
    using assms(2) by (auto simp: hashable_iff hash_delete_def)
  then show ?thesis using Some assms(2) s1 id by (simp add: delent_def hash_search_ok)
qed

lemma succeeds_final: "succeeds cs \<Longrightarrow> run cs init_state = Inr (final cs)"
  by (simp add: succeeds_def final_def split: sum.splits)


lemma delrel_fail:
  assumes wf: "wf_state s" and fail: "delrel s f t ty = Inl err"
    and hf: "hashable f" and ht: "hashable t"
  shows "\<exists>m L. descriptor s ty = Some (m, L) \<and> f \<in> live s \<and> t \<in> live s
            \<and> f \<in> nbrs s t ty
            \<and> unat (count16 (nbrs s t ty - {f})) + 1 = unat m
            \<and> 1 < count16 L \<and> t \<notin> L"
proof -
  note wfs = wf_stateD[OF wf]
  have hs: "hash_search (ENTITIES s) f = Inr (lookup (ENTITIES s) f)"
    "hash_search (ENTITIES s) t = Inr (lookup (ENTITIES s) t)"
    using hf ht by (simp_all add: hash_search_ok)
  obtain fe te where l: "lookup (ENTITIES s) f = Some fe" "lookup (ENTITIES s) t = Some te"
    using fail hs by (auto simp: delrel_def split: option.splits)
  have ids: "id_e fe = f" "id_e te = t" using l by (auto dest: lookup_SomeD)
  obtain d where d: "list_search (RELATION_TYPES s) ty = Some d"
    using fail hs l by (auto simp: delrel_def split: option.splits)
  obtain rel where rel: "list_search (rel_list te) ty = Some rel"
    using fail hs l d by (auto simp: delrel_def split: option.splits)
  obtain a x b where nd: "tree_search (root (tree rel)) f = Node a x b"
    using fail hs l d rel ids by (auto simp: delrel_def split: node.splits)
  have x: "x = f" using nd by (rule tree_search_Node)
  have wfl: "wf_list (rel_list te)" using wfs(1) l(2) by (auto intro: lookup_wf)
  have wr: "wf_tree (tree rel)" using wfl rel by (rule rel_tree_wf)
  have wd: "wf_tree (tree d)" using wf d by (rule wf_state_desc_tree)
  have nb: "nbrs s t ty = set (elems (tree rel))"
    using l(2) rel by (simp add: nbrs_lookup rel_tree_def)
  have fin: "f \<in> nbrs s t ty" using nd tree_search_elems[OF wr, of f] nb by simp
  define tr where "tr = rb_delete_key (tree rel) f"
  have sz: "size_t tr = count16 (nbrs s t ty - {f})"
    using wr fin nb by (simp add: tr_def wf_tree_count wf_rb_delete_key elems_rb_delete_key)
  have br: "unat (size_t tr) + 1 = unat (current_maximum d) \<and> 1 < size_t (tree d)
      \<and> tree_search (root (tree d)) t = NIL"
  proof -
    have c1: "unat (size_t tr) + 1 = unat (current_maximum d)"
      using fail hs l d rel nd ids x unfolding tr_def
      by (auto simp: delrel_def Let_def split: if_splits)
    have c2: "1 < size_t (tree d)"
    proof (rule ccontr)
      assume n: "\<not> 1 < size_t (tree d)"
      have kd: "key d = ty" and mem: "ty \<in> key ` set (RELATION_TYPES s)"
        using list_search_Some[OF d] by auto
      let ?s1 = "s\<lparr>ENTITIES := entity_store (ENTITIES s)
           (te\<lparr>rel_list := list_store (rel_list te) (rel\<lparr>tree := tr\<rparr>)\<rparr>)\<rparr>"
      have wtr: "wf_tree tr" using wr fin nb by (simp add: tr_def wf_rb_delete_key)
      have "wf_table (ENTITIES ?s1)"
        using wf_entity_store[of "ENTITIES s" "te\<lparr>rel_list := list_store (rel_list te) (rel\<lparr>tree := tr\<rparr>)\<rparr>" te]
          wfs(1) l(2) ids wfl wtr by (simp add: wf_list_store)
      then have wf1: "wf_state ?s1" using wf by (simp add: wf_state_def)
      obtain s2 where "restore_data_maximum ?s1 d ty = Inr s2"
        using restore_sim[OF wf1 kd _ wd] mem by auto
      then show False
        using fail hs l d rel nd ids x c1 n unfolding tr_def
        by (simp add: delrel_def Let_def)
    qed
    have c3: "tree_search (root (tree d)) t = NIL"
      using fail hs l d rel nd ids x c1 c2 unfolding tr_def
      by (cases "tree_search (root (tree d)) t") (simp_all add: delrel_def Let_def)
    show ?thesis using c1 c2 c3 by simp
  qed
  have "descriptor s ty = Some (current_maximum d, set (elems (tree d)))"
    using d by (rule descriptor_Some)
  moreover have "f \<in> live s" "t \<in> live s" using l by (simp_all add: live_def)
  moreover have "1 < count16 (set (elems (tree d)))" using br wd by (simp add: wf_tree_count)
  moreover have "t \<notin> set (elems (tree d))" using br tree_search_elems[OF wd] by simp
  ultimately show ?thesis using fin br sz by auto
qed

lemma delrel_ok:
  assumes wf: "wf_state s" and inv: "vinv (view s)" and sm: "small (view s)"
    and hf: "hashable f" and ht: "hashable t"
  shows "\<exists>s'. delrel s f t ty = Inr s'"
proof (cases "delrel s f t ty")
  case (Inr s')
  then show ?thesis by simp
next
  case (Inl err)
  then obtain m L where F: "descriptor s ty = Some (m, L)" "f \<in> live s" "t \<in> live s"
      "f \<in> nbrs s t ty" "unat (count16 (nbrs s t ty - {f})) + 1 = unat m" "t \<notin> L"
    using delrel_fail[OF wf Inl hf ht] by blast
  have mL: "m = msize (view s) ty" "L = tops (view s) ty" using vinv_descD[OF inv F(1)] by simp_all
  have fin: "finite (live s)" using wf by (simp add: finite_live wf_stateD)
  have bound: "card (live s) \<le> 65535" using sm by (simp add: small_def)
  have sub: "nbrs s t ty \<subseteq> live s" using inv by (rule vinv_subD)
  have finA: "finite (nbrs s t ty)" by simp
  have "unat (count16 (nbrs s t ty - {f})) = card (nbrs s t ty - {f})"
    using sub fin bound by (intro count16_exact[of _ "live s"]) auto
  moreover have "unat (count16 (nbrs s t ty)) = card (nbrs s t ty)"
    using sub fin bound by (intro count16_exact[of _ "live s"]) auto
  moreover have "card (nbrs s t ty - {f}) + 1 = card (nbrs s t ty)"
    using F(4) finA by (simp add: card_Diff_singleton card_gt_0_iff Suc_le_eq) (metis Suc_pred card_gt_0_iff empty_iff finA)
  ultimately have "count16 (nbrs s t ty) = m" using F(5) by (metis word_unat_eq_iff)
  then have "t \<in> L" using F(3) mL by (simp add: tops_def)
  then show ?thesis using F(6) by simp
qed

lemma exec_ok:
  assumes "wf_state s" "vinv (view s)" "small (view s)" "cmd_hashable c"
  shows "\<exists>s'. exec c s = Inr s'"
  using assms by (cases c) (simp_all add: addent_ok addrel_ok delent_ok delrel_ok)

lemma run_ok_from:
  "wf_state s \<Longrightarrow> vinv (view s) \<Longrightarrow> card (live s) + addents cs \<le> 65535 \<Longrightarrow>
   list_all cmd_hashable cs \<Longrightarrow> \<exists>s'. run cs s = Inr s'"
proof (induction cs arbitrary: s)
  case Nil
  then show ?case by simp
next
  case (Cons c cs)
  have sm: "small (view s)" using Cons.prems(3) by (simp add: small_def)
  obtain s1 where s1: "exec c s = Inr s1"
    using exec_ok[OF Cons.prems(1,2) sm] Cons.prems(4) by auto
  note E = exec_sim[OF Cons.prems(1) s1]
  have "vinv (view s1)" using vinv_a_exec[OF Cons.prems(2) sm, of c] E(2) by simp
  moreover have "live s1 = v_live (a_exec c (view s))" using E(2) by (metis view_simps(1))
  then have "card (live s1) + addents cs \<le> 65535"
    using card_a_exec[OF Cons.prems(2), of c] Cons.prems(3)
    by (cases "is_addent c") (simp_all add: addents_def)
  ultimately obtain s' where "run cs s1 = Inr s'"
    using Cons.IH[OF E(1)] Cons.prems(4) by auto
  then show ?case using s1 by simp
qed

lemma run_ok:
  assumes "list_all cmd_hashable cs" "addents cs \<le> 65535"
  shows "succeeds cs"
proof -
  have "card (live init_state) + addents cs \<le> 65535"
    using assms(2) view_init by (simp add: live_def init_state_def)
  then obtain s where "run cs init_state = Inr s"
    using run_ok_from[OF wf_init_state vinv_init _ assms(1)] by auto
  then show ?thesis by (simp add: succeeds_def)
qed

lemma char_val_ascii:
  assumes "ascii c"
  shows "char_val c = int (of_char c)"
proof -
  have "(of_char c :: 8 word) = of_nat (of_char c)" by (simp add: of_nat_of_char)
  then have "char_val c = signed_take_bit 7 (int (of_char c))"
    by (simp add: char_val_def signed_of_nat)
  also have "\<dots> = int (of_char c)"
    using assms by (intro signed_take_bit_int_eq_self) (simp_all add: ascii_def)
  finally show ?thesis .
qed

lemma shift_bounds: "0 \<le> c \<Longrightarrow> c \<le> 127 \<Longrightarrow> 0 \<le> shift_char_value c \<and> shift_char_value c \<le> 127"
  by (simp add: shift_char_value_def)

lemma hash_loop_ascii:
  "list_all ascii cs \<Longrightarrow> i + length cs \<le> 1000 \<Longrightarrow> 0 \<le> h \<Longrightarrow>
   \<exists>h'. hash_loop cs i h = Inr h' \<and> 0 \<le> h'"
proof (induction cs arbitrary: i h)
  case Nil
  then show ?case by simp
next
  case (Cons c cs)
  have a: "ascii c" and rest: "list_all ascii cs" using Cons.prems(1) by simp_all
  define v where "v = shift_char_value (char_val c)"
  have v: "0 \<le> v" "v \<le> 127"
    using shift_bounds[of "char_val c"] a by (simp_all add: v_def char_val_ascii ascii_def)
  have i: "i < 1000" using Cons.prems(2) by simp
  have i': "int i \<le> 1000" using i by simp
  have sq: "int i * int i \<le> 1000 * 1000"
    using mult_mono[of "int i" 1000 "int i" 1000] i' by simp
  have p0: "0 \<le> int i * int i * v" using v by simp
  have "int i * int i * v \<le> (1000 * 1000) * 127"
    using mult_mono[of "int i * int i" "1000 * 1000" v 127] sq v by simp
  then have ok: "\<not> (INT_MAX < int i * int i \<or> int i * int i * v < INT_MIN \<or> INT_MAX < int i * int i * v)"
    using sq p0 by (simp add: INT_MAX_def INT_MIN_def)
  have "hash_loop (c # cs) i h = hash_loop cs (Suc i) (h + int i * int i * v)"
    using ok by (simp add: Let_def v_def)
  moreover have "\<exists>h'. hash_loop cs (Suc i) (h + int i * int i * v) = Inr h' \<and> 0 \<le> h'"
    using rest Cons.prems(2,3) p0 by (intro Cons.IH) simp_all
  ultimately show ?case by simp
qed

lemma hashable_ascii:
  assumes "list_all ascii x" "length x \<le> 1000"
  shows "hashable x"
proof -
  obtain h where h: "hash_loop x 0 0 = Inr h" "0 \<le> h"
    using hash_loop_ascii[OF assms(1), of 0 0] assms(2) by auto
  have "0 \<le> c_rem h (int HASH_DIMENSION)" "c_rem h (int HASH_DIMENSION) < int HASH_DIMENSION"
    using h(2) by (simp_all add: c_rem_def HASH_DIMENSION_def sgn_if)
  then show ?thesis using h(1)
    by (simp add: hashable_def table_index_def hash_string_def)
qed

lemma ascii_simps [simp]: "ascii (CHR ''a'')" "ascii (CHR ''b'')" "ascii (CHR ''c'')"
  "ascii (CHR ''r'')" "ascii (CHR ''x'')" "ascii (CHR ''y'')" "ascii (CHR ''z'')"
  by (simp_all add: ascii_def)

section \<open>A run that takes a counter past sixteen bits\<close>

lemma decimal_ne [simp]: "decimal n \<noteq> []"
  by (subst decimal.simps) simp

lemma decimal_ne' [simp]: "[] \<noteq> decimal n"
  using decimal_ne[of n] by metis



























lemma final_view:
  assumes "succeeds cs"
  shows "wf_state (final cs)" "view (final cs) = fold a_exec cs (view init_state)"
  using run_sim[OF wf_init_state succeeds_final[OF assms]] by simp_all

lemma final_parts:
  assumes "succeeds cs" "fold a_exec cs (view init_state) = v"
  shows "live (final cs) = v_live v" "nbrs (final cs) = v_nbrs v" "descriptor (final cs) = v_desc v"
  using final_view(2)[OF assms(1)] assms(2) by (metis view_simps)+





lemma in_deg_le_max:
  "e \<in> set (entities (ENTITIES s)) \<Longrightarrow> in_deg e t \<le> max_in_degree s t"
  unfolding max_in_degree_Max by (intro Max_ge) simp_all

lemma unat_pred16: "1 \<le> n \<Longrightarrow> n \<le> 65535 \<Longrightarrow> unat ((of_nat n :: 16 word) - 1) = n - 1"
proof -
  assume n: "1 \<le> n" "n \<le> 65535"
  then have e: "(of_nat n :: 16 word) - 1 = of_nat (n - 1)" by simp
  have "n - 1 \<le> 65535" using n by simp
  then show ?thesis unfolding e by (rule unat_of_nat16)
qed


section \<open>The text of the report\<close>

lemma print_tree_concat: "print_relation_tree t = concat (map (\<lambda>x. quoted x @ '' '') (inorder t))"
  by (induction t) (simp_all add: print_string_def quoted_def)

lemma sorted_list_of_set_strict:
  "sorted_wrt (<) xs \<Longrightarrow> sorted_list_of_set (set xs) = (xs :: string list)"
  by (simp add: strict_sorted_iff sorted_list_of_set.idem_if_sorted_distinct)

lemma report_loop_tokens:
  "list_all (\<lambda>d. wf_tree (tree d)) ds \<Longrightarrow>
   report_loop ds = concat (map (\<lambda>tok. tok @ '' '')
     (concat (map (\<lambda>d. spec_tokens (key d) (current_maximum d, set (elems (tree d)))) ds)))"
proof (induction ds)
  case Nil
  then show ?case by simp
next
  case (Cons d ds)
  have "bst (root (tree d))" using Cons.prems by (simp add: wf_tree_def)
  then have "sorted_list_of_set (set (elems (tree d))) = elems (tree d)"
    unfolding elems_def by (intro sorted_list_of_set_strict bst_sorted)
  then show ?case
    using Cons
    by (simp add: spec_tokens_def print_tree_concat print_string_def quoted_def elems_def
        map_concat comp_def)
qed

lemma report_text_spec:
  assumes "wf_state s"
  shows "report_text s = spec_report (descriptor s)"
proof -
  note wfs = wf_stateD[OF assms]
  let ?ds = "RELATION_TYPES s"
  have dom: "dom (descriptor s) = set (map key ?ds)" by (simp add: dom_descriptor)
  have keys: "sorted_list_of_set (dom (descriptor s)) = map key ?ds"
    unfolding dom using wfs(2) by (rule sorted_list_of_set_strict)
  have each: "the (descriptor s (key d)) = (current_maximum d, set (elems (tree d)))"
    if "d \<in> set ?ds" for d
    using list_search_in[OF wfs(3) that] by (simp add: descriptor_def)
  have m: "map (\<lambda>t. spec_tokens t (the (descriptor s t))) (map key ?ds)
      = map (\<lambda>d. spec_tokens (key d) (current_maximum d, set (elems (tree d)))) ?ds"
    using each by simp
  have "report_loop ?ds = concat (map (\<lambda>tok. tok @ '' '')
     (concat (map (\<lambda>t. spec_tokens t (the (descriptor s t))) (sorted_list_of_set (dom (descriptor s))))))"
    unfolding keys m by (rule report_loop_tokens[OF wfs(4)])
  moreover have "dom (descriptor s) = {} \<longleftrightarrow> ?ds = []" by (simp add: dom_descriptor)
  ultimately show ?thesis by (simp add: report_text_def spec_report_def)
qed


lemma digit_not_newline: "d < 10 \<Longrightarrow> digit d \<noteq> CHR 0x0A"
proof
  assume d: "d < 10" and e: "digit d = CHR 0x0A"
  have "of_char (digit d) = (of_char (CHR 0x0A) :: nat)" using e by simp
  then show False using d by (simp add: digit_def)
qed

lemma decimal_no_newline: "CHR 0x0A \<notin> set (decimal n)"
proof (induction n rule: decimal.induct)
  case (1 n)
  show ?case
  proof (cases "n < 10")
    case True
    then show ?thesis using digit_not_newline[of n] by (subst decimal.simps) auto
  next
    case False
    then show ?thesis
      using 1 digit_not_newline[of "n mod 10"] by (subst decimal.simps) auto
  qed
qed

lemma spec_tokens_no_newline:
  assumes "finite (snd d)" "CHR 0x0A \<notin> set t" "\<forall>x \<in> snd d. CHR 0x0A \<notin> set x"
    and "tok \<in> set (spec_tokens t d)"
  shows "CHR 0x0A \<notin> set tok"
  using assms decimal_no_newline[of "unat (fst d)"]
  by (auto simp: spec_tokens_def quoted_def)

lemma spec_report_one_line:
  assumes "finite (dom D)" "\<forall>t \<in> dom D. finite (snd (the (D t)))"
    and "\<forall>t \<in> dom D. CHR 0x0A \<notin> set t \<and> (\<forall>x \<in> snd (the (D t)). CHR 0x0A \<notin> set x)"
  shows "CHR 0x0A \<notin> set (butlast (spec_report D))"
proof (cases "dom D = {}")
  case True
  then show ?thesis by (simp add: spec_report_def)
next
  case False
  have "CHR 0x0A \<notin> set tok"
    if "t \<in> dom D" "tok \<in> set (spec_tokens t (the (D t)))" for t tok
    using spec_tokens_no_newline[of "the (D t)" t tok] assms(2,3) that by blast
  then show ?thesis using False assms(1) by (auto simp: spec_report_def)
qed

lemma decimal_1: "decimal (Suc 0) = ''1''"
  by code_simp



























lemma view_desc_id: "v\<lparr>v_desc := v_desc v\<rparr> = (v :: view)"
  by simp



lemma addents_append: "addents (cs @ ds) = addents cs + addents ds"
  by (simp add: addents_def)


section \<open>The claims on the index\<close>







text \<open>
  Claim C10: in a state reached by a run from the initial state where the leader
  invariant holds, when \<open>delrel\<close> finds both entities, the descriptor of the type, the
  tree of the target for the type and the source in that tree, and then takes the branch
  where the counter of that tree after the removal, plus one, is the maximum of the type
  and the tree of leaders has more than one element: the target is in the tree of
  leaders, the search for it there does not return the sentinel \<open>NIL\<close>, \<open>rb_delete\<close> is
  applied to the node found and returns, and so does \<open>delrel\<close>.
\<close>

theorem C10_leader_search_finds_target:
  assumes "run cs init_state = Inr s" "leader_inv s"
    and "hash_search (ENTITIES s) from = Inr (Some f)"
    and "hash_search (ENTITIES s) to = Inr (Some t)"
    and "list_search (RELATION_TYPES s) type = Some data_list"
    and "list_search (rel_list t) type = Some rel"
    and "tree_search (root (tree rel)) (id_e f) = Node l x r"
    and "unat (size_t (rb_delete_key (tree rel) x)) + 1 = unat (current_maximum data_list)"
    and "1 < size_t (tree data_list)"
  shows "id_e t \<in> set (elems (tree data_list))
         \<and> tree_search (root (tree data_list)) (id_e t) \<noteq> NIL
         \<and> rb_delete (tree data_list) (tree_search (root (tree data_list)) (id_e t))
             = Inr (rb_delete_key (tree data_list) (id_e t))
         \<and> (case delrel s from to type of Inl e \<Rightarrow> False | Inr s' \<Rightarrow> True)"
proof -
  have wf: "wf_state s" using run_sim[OF wf_init_state assms(1)] by simp
  note wfs = wf_stateD[OF wf]
  have lt: "lookup (ENTITIES s) to = Some t" using assms(4) by (rule hash_search_lookup)
  then have id: "id_e t = to" by (auto dest: lookup_SomeD)
  have mem: "t \<in> set (entities (ENTITIES s))"
    using lt id by (simp add: entities_lookup[OF wfs(1)])
  have wl: "wf_list (rel_list t)" using wfs(1) lt by (rule lookup_wf)
  have wr: "wf_tree (tree rel)" using wl assms(6) by (rule rel_tree_wf)
  have rt: "rel_tree t type = tree rel" using assms(6) by (simp add: rel_tree_def)
  have d: "data_list \<in> set (RELATION_TYPES s)" "key data_list = type"
    using list_search_Some[OF assms(5)] by simp_all
  have ok: "leader_ok s data_list" using assms(2) d(1) by (simp add: leader_inv_def list_all_iff)
  have wd: "wf_tree (tree data_list)" using wf assms(5) by (rule wf_state_desc_tree)
  let ?n = "length (elems (tree rel))"
  have deg: "in_deg t type = ?n"
    using wf_tree_distinct[OF wr] by (simp add: in_deg_def rt distinct_card)
  have x: "x = id_e f" using assms(7) by (rule tree_search_Node)
  have "tree_search (root (tree rel)) (id_e f) \<noteq> NIL" using assms(7) by simp
  then have "id_e f \<in> set (elems (tree rel))" using tree_search_elems[OF wr] by simp
  then have n1: "1 \<le> ?n" by (cases "elems (tree rel)") simp_all
  have "?n \<le> max_in_degree s type" using in_deg_le_max[OF mem, of type] deg by simp
  also have "\<dots> = unat (current_maximum data_list)" using ok d(2) by (simp add: leader_ok_def)
  also have "\<dots> \<le> 65535"
    using unsigned_less[of "current_maximum data_list", where 'a = nat] by simp
  finally have n2: "?n \<le> 65535" .
  have "size_t (rb_delete_key (tree rel) x) = of_nat ?n - 1"
    using wr by (simp add: rb_delete_key_def wf_tree_def)
  then have "unat (size_t (rb_delete_key (tree rel) x)) = ?n - 1"
    using unat_pred16[OF n1 n2] by simp
  then have top: "in_deg t type = unat (current_maximum data_list)"
    using assms(8) n1 deg by simp
  have "id_e t \<in> set (map id_e (filter (\<lambda>e. in_deg e (key data_list) = unat (current_maximum data_list))
                           (entities (ENTITIES s))))"
    using mem top d(2) by simp
  then have leader: "id_e t \<in> set (elems (tree data_list))"
    using ok by (simp add: leader_ok_def)
  then have found: "tree_search (root (tree data_list)) (id_e t) \<noteq> NIL"
    using tree_search_elems[OF wd] by simp
  then obtain a y b where node: "tree_search (root (tree data_list)) (id_e t) = Node a y b"
    by (cases "tree_search (root (tree data_list)) (id_e t)") simp_all
  then have y: "y = id_e t" by (rule tree_search_Node)
  have del: "rb_delete (tree data_list) (tree_search (root (tree data_list)) (id_e t))
             = Inr (rb_delete_key (tree data_list) (id_e t))"
    unfolding node y rb_delete_eq ..
  have "case delrel s from to type of Inl e \<Rightarrow> False | Inr s' \<Rightarrow> True"
    using assms(3-9) del by (simp add: delrel_def Let_def)
  then show ?thesis using leader found del by simp
qed

text \<open>
  Claim C10 after \<open>a\<close> has been related to \<open>b\<close> and to \<open>c\<close>: both are leaders with
  in-degree 1, and \<open>delrel\<close> of the relation towards \<open>b\<close> takes that branch.
\<close>

theorem C10_leader_search_witness:
  "succeeds [Addent ''a'', Addent ''b'', Addent ''c'', Addrel ''a'' ''b'' ''r'', Addrel ''a'' ''c'' ''r'']
   \<and> descriptor (final [Addent ''a'', Addent ''b'', Addent ''c'', Addrel ''a'' ''b'' ''r'',
                          Addrel ''a'' ''c'' ''r'']) ''r'' = Some (1, {''b'', ''c''})
   \<and> (case delrel (final [Addent ''a'', Addent ''b'', Addent ''c'', Addrel ''a'' ''b'' ''r'',
                            Addrel ''a'' ''c'' ''r'']) ''a'' ''b'' ''r'' of
         Inl e \<Rightarrow> False | Inr s' \<Rightarrow> True)"
proof -
  let ?cs = "[Addent ''a'', Addent ''b'', Addent ''c'', Addrel ''a'' ''b'' ''r'', Addrel ''a'' ''c'' ''r'']"
  let ?s = "final ?cs"
  have h: "list_all cmd_hashable ?cs" by (simp add: hashable_ascii)
  have a: "addents ?cs \<le> 65535" by (simp add: addents_def)
  have s: "succeeds ?cs" using h a by (rule run_ok)
  have r: "run ?cs init_state = Inr ?s" using s by (rule succeeds_final)
  note R = run_vinv[OF r a]
  note wfs = wf_stateD[OF R(1)]
  have inv: "leader_inv ?s" using R by (rule leader_bridge)
  have v: "fold a_exec ?cs (view init_state)
      = \<lparr>v_live = {''a'', ''b'', ''c''},
         v_nbrs = (\<lambda>y t. if (y = ''b'' \<or> y = ''c'') \<and> t = ''r'' then {''a''} else {}),
         v_desc = (\<lambda>t. if t = ''r'' then Some (1, {''b'', ''c''}) else None)\<rparr>"
    by (auto simp: view_init a_addent_def a_addrel_def addrel_desc_def count16_def fun_eq_iff)
  note P = final_parts[OF s v]
  have desc: "descriptor ?s ''r'' = Some (1, {''b'', ''c''})" by (simp add: P)
  have "''a'' \<in> live ?s" "''b'' \<in> live ?s" by (simp_all add: P)
  then obtain f t where f: "lookup (ENTITIES ?s) ''a'' = Some f"
    and t: "lookup (ENTITIES ?s) ''b'' = Some t"
    by (auto simp: live_def)
  have hf: "hash_search (ENTITIES ?s) ''a'' = Inr (Some f)"
    and ht: "hash_search (ENTITIES ?s) ''b'' = Inr (Some t)"
    using f t by (simp_all add: hash_search_ok hashable_ascii)
  have idf: "id_e f = ''a''" using f by (auto dest: lookup_SomeD)
  obtain d where d: "list_search (RELATION_TYPES ?s) ''r'' = Some d"
    and dm: "current_maximum d = 1" and dl: "set (elems (tree d)) = {''b'', ''c''}"
    using desc by (auto simp: descriptor_def)
  have wd: "wf_tree (tree d)" using R(1) d by (rule wf_state_desc_tree)
  have "size_t (tree d) = count16 {''b'', ''c''}" using wf_tree_count[OF wd] dl by simp
  then have big: "1 < size_t (tree d)" by (simp add: count16_def)
  have nb: "set (elems (rel_tree t ''r'')) = {''a''}"
    using nbrs_lookup[OF t, of "''r''"] by (simp add: P)
  then obtain rel where rel: "list_search (rel_list t) ''r'' = Some rel"
    and rl: "set (elems (tree rel)) = {''a''}"
    by (auto simp: rel_tree_def split: option.splits)
  have wr: "wf_tree (tree rel)" using lookup_wf[OF wfs(1) t] rel by (rule rel_tree_wf)
  have "tree_search (root (tree rel)) (id_e f) \<noteq> NIL"
    using tree_search_elems[OF wr, of "id_e f"] rl idf by simp
  then obtain l x r' where node: "tree_search (root (tree rel)) (id_e f) = Node l x r'"
    by (cases "tree_search (root (tree rel)) (id_e f)") simp_all
  have "size_t (tree rel) = count16 {''a''}" using wf_tree_count[OF wr] rl by simp
  then have "size_t (rb_delete_key (tree rel) x) = 0"
    by (simp add: rb_delete_key_def count16_def)
  then have k: "unat (size_t (rb_delete_key (tree rel) x)) + 1 = unat (current_maximum d)"
    using dm by simp
  show ?thesis
    using C10_leader_search_finds_target[OF r inv hf ht d rel node k big] s desc by simp
qed

text \<open>
  Claim C2: in every state reached by a run from the initial state, what \<open>report\<close>
  writes is the text of the specification for the descriptors of the state: \<open>none\<close> and
  a newline when no type has a descriptor; otherwise, for each type in ascending byte
  order, its name in double quotes, its leaders in ascending byte order, each in double
  quotes, and its maximum in decimal followed by a semicolon, every token followed by
  one space, then one newline. \<open>report\<close> appends that text to the output and returns.
  The text is one line: no newline before the last byte, when no type name and no leader
  holds a newline (the parser ends a token at a newline).
\<close>

theorem C2_report_format:
  assumes "run cs init_state = Inr s"
  shows "report_text s = spec_report (descriptor s)
         \<and> exec Report s = Inr (s\<lparr>stdout := stdout s @ spec_report (descriptor s)\<rparr>)
         \<and> ((\<forall>t \<in> dom (descriptor s). CHR 0x0A \<notin> set t
                 \<and> (\<forall>x \<in> snd (the (descriptor s t)). CHR 0x0A \<notin> set x))
              \<longrightarrow> CHR 0x0A \<notin> set (butlast (spec_report (descriptor s))))"
proof -
  have wf: "wf_state s" using run_sim[OF wf_init_state assms] by simp
  have r: "report_text s = spec_report (descriptor s)" using wf by (rule report_text_spec)
  have fin: "finite (dom (descriptor s))" by (simp add: dom_descriptor)
  have fin2: "\<forall>t \<in> dom (descriptor s). finite (snd (the (descriptor s t)))"
    by (auto simp: descriptor_def)
  show ?thesis
    using r spec_report_one_line[OF fin fin2] by (simp add: report_def)
qed

text \<open>
  Claim C2 after \<open>a\<close> has been related to \<open>b\<close> by \<open>r\<close>, and in the initial state.
\<close>

theorem C2_report_format_witness:
  "report_text (final [Addent ''a'', Addent ''b'', Addrel ''a'' ''b'' ''r''])
     = [CHR 0x22] @ ''r'' @ [CHR 0x22] @ '' '' @ [CHR 0x22] @ ''b'' @ [CHR 0x22] @ '' 1; '' @ [CHR 0x0A]
   \<and> report_text (final []) = ''none'' @ [CHR 0x0A]"
proof -
  let ?cs = "[Addent ''a'', Addent ''b'', Addrel ''a'' ''b'' ''r'']"
  have h: "list_all cmd_hashable ?cs" by (simp add: hashable_ascii)
  have a: "addents ?cs \<le> 65535" by (simp add: addents_def)
  have s: "succeeds ?cs" using h a by (rule run_ok)
  have r: "run ?cs init_state = Inr (final ?cs)" using s by (rule succeeds_final)
  have v: "fold a_exec ?cs (view init_state)
      = \<lparr>v_live = {''a'', ''b''},
         v_nbrs = (\<lambda>y t. if y = ''b'' \<and> t = ''r'' then {''a''} else {}),
         v_desc = (\<lambda>t. if t = ''r'' then Some (1, {''b''}) else None)\<rparr>"
    by (auto simp: view_init a_addent_def a_addrel_def addrel_desc_def count16_def fun_eq_iff)
  have d: "descriptor (final ?cs) = (\<lambda>t. if t = ''r'' then Some (1, {''b''}) else None)"
    using final_parts(3)[OF s v] by simp
  have dm: "dom (\<lambda>t. if t = ''r'' then Some (1 :: 16 word, {''b''}) else None) = {''r''}"
    by (auto simp: dom_def split: if_splits)
  have 1: "spec_report (descriptor (final ?cs))
     = [CHR 0x22] @ ''r'' @ [CHR 0x22] @ '' '' @ [CHR 0x22] @ ''b'' @ [CHR 0x22] @ '' 1; '' @ [CHR 0x0A]"
    unfolding d spec_report_def dm by (simp add: spec_tokens_def quoted_def decimal_1)
  have s0: "succeeds []" by (simp add: succeeds_def)
  have r0: "run [] init_state = Inr (final [])" using s0 by (rule succeeds_final)
  have "descriptor (final []) = (\<lambda>t. None)"
    by (simp add: final_def descriptor_def init_state_def fun_eq_iff)
  then have 2: "spec_report (descriptor (final [])) = ''none'' @ [CHR 0x0A]"
    by (simp add: spec_report_def)
  show ?thesis
    using C2_report_format[OF r] C2_report_format[OF r0] 1 2 by simp
qed













end
